theory Spec2Isabelle
  imports Main "HOL-Library.Word"
begin

unbundle bit_operations_syntax

section \<open>The cdb reader of go-cdb: data model\<close>

text \<open>
  The sources hold two builds of package cdb with the same lookup engine: one keeps the
  whole file as a memory-mapped byte slice (\<open>mmappedData\<close>), the other reads through an
  \<open>io.ReaderAt\<close> into a scratch buffer owned by the context. Names of the first carry the
  suffix \<open>_mmap\<close>, names of the second the suffix \<open>_rd\<close>.

  Positions and lengths are Go \<open>uint32\<close>: 32-bit words whose arithmetic wraps. A byte
  slice is a list of 8-bit words. Go's \<open>int\<close> (slice lengths, loop counters of
  \<open>match\<close>) never overflows on the inputs at hand and is modelled by \<open>nat\<close>.
\<close>

type_synonym byte = "8 word"
type_synonym u32 = "32 word"

text \<open>
  The errors a lookup can return: \<open>io.EOF\<close>, which the package uses as its
  "no (more) records" signal; a \<open>runtime.Error\<close> raised by an out-of-range slice
  expression; any other error value an \<open>io.ReaderAt\<close> may hand back.
\<close>

datatype error = EOF | RuntimeError | ReaderError nat

text \<open>An attempted storage read: byte offset and number of bytes.\<close>

type_synonym access = "nat \<times> nat"

text \<open>
  \<open>type Context struct\<close>. The second build adds the scratch buffer \<open>buf\<close>; its
  length and capacity always agree (64 from \<open>NewContext\<close>, 0 for the zero value).
\<close>

record Context =
  loop :: u32
  khash :: u32
  kpos :: u32
  hpos :: u32
  hslots :: u32
  dpos :: u32
  dlen :: u32

record Context_rd = Context +
  buf :: "byte list"

text \<open>\<open>binary.LittleEndian.Uint32(b)\<close>, called on slices of at least four bytes.\<close>

definition Uint32 :: "byte list \<Rightarrow> u32" where
  "Uint32 b = ucast (b ! 0) OR push_bit 8 (ucast (b ! 1))
                OR push_bit 16 (ucast (b ! 2)) OR push_bit 24 (ucast (b ! 3))"

text \<open>
  Modelled from the spec: the function \<open>checksum\<close> (the spec's \<open>cdbHash\<close>) is called by
  \<open>find\<close>, but the file that defines it is not among the sources. The spec gives it as:
  seed \<open>h = 5381\<close>; for each input byte \<open>c\<close>, \<open>h = ((h << 5) + h) ^ c\<close>, in unsigned
  32-bit wrap-around arithmetic.
\<close>

definition checksum :: "byte list \<Rightarrow> u32" where
  "checksum data = foldl (\<lambda>h c. (push_bit 5 h + h) XOR ucast c) 5381 data"

section \<open>The memory-mapped build\<close>

record Cdb =
  mmappedData :: "byte list"

text \<open>
  A Go slice expression \<open>d[lo:hi]\<close> on a slice whose capacity is its length: it panics
  with a \<open>runtime.Error\<close> unless \<open>lo \<le> hi \<le> len(d)\<close>.
\<close>

definition slice :: "byte list \<Rightarrow> nat \<Rightarrow> nat \<Rightarrow> error + byte list" where
  "slice d lo hi =
     (if lo \<le> hi \<and> hi \<le> length d then Inr (take (hi - lo) (drop lo d))
      else Inl RuntimeError)"

text \<open>
  \<open>readNums\<close>: the bounds \<open>pos\<close> and \<open>pos+8\<close> are \<open>uint32\<close>, so \<open>pos+8\<close> wraps.
  \<open>Inl e\<close> is a panic with value \<open>e\<close>. The second component logs the attempted access.
\<close>

definition readNums_mmap :: "Cdb \<Rightarrow> u32 \<Rightarrow> (error + u32 \<times> u32) \<times> access list" where
  "readNums_mmap c pos =
     (case slice (mmappedData c) (unat pos) (unat (pos + 8)) of
        Inl e \<Rightarrow> (Inl e, [(unat pos, 8)])
      | Inr data \<Rightarrow> (Inr (Uint32 data, Uint32 (drop 4 data)), [(unat pos, 8)]))"

text \<open>\<open>match\<close>: \<open>bytes.Equal(c.mmappedData[pos:pos+uint32(len(key))], key)\<close>.\<close>

definition match_mmap :: "Cdb \<Rightarrow> byte list \<Rightarrow> u32 \<Rightarrow> (error + bool) \<times> access list" where
  "match_mmap c key pos =
     (let klen = (of_nat (length key) :: u32) in
      case slice (mmappedData c) (unat pos) (unat (pos + klen)) of
        Inl e \<Rightarrow> (Inl e, [(unat pos, unat klen)])
      | Inr s \<Rightarrow> (Inr (s = key), [(unat pos, unat klen)]))"

text \<open>
  The three statements that follow a slot read inside the probe loop:
  \<open>context.loop++; context.kpos += 8;
   if context.kpos == context.hpos+(context.hslots<<3) { context.kpos = context.hpos }\<close>.
\<close>

definition advance :: "'a Context_scheme \<Rightarrow> 'a Context_scheme" where
  "advance ctx =
     (let ctx1 = ctx\<lparr>loop := loop ctx + 1\<rparr>;
          ctx2 = ctx1\<lparr>kpos := kpos ctx1 + 8\<rparr>
      in if kpos ctx2 = hpos ctx2 + push_bit 3 (hslots ctx2)
         then ctx2\<lparr>kpos := hpos ctx2\<rparr> else ctx2)"

lemma advance_fields [simp]:
  "loop (advance ctx) = loop ctx + 1"
  "hslots (advance ctx) = hslots ctx"
  "hpos (advance ctx) = hpos ctx"
  "khash (advance ctx) = khash ctx"
  "dpos (advance ctx) = dpos ctx"
  "dlen (advance ctx) = dlen ctx"
  by (simp_all add: advance_def Let_def)

lemma advance_kpos:
  "kpos (advance ctx) =
     (if kpos ctx + 8 = hpos ctx + push_bit 3 (hslots ctx) then hpos ctx else kpos ctx + 8)"
  by (simp add: advance_def Let_def)

lemma unat_plus1_less: "(l :: u32) < n \<Longrightarrow> unat (l + 1) = unat l + 1"
proof -
  assume a: "l < n"
  have "unat n < 2 ^ 32" using unsigned_less [of n] by simp
  with a have "unat l + 1 < 2 ^ 32" by (simp add: word_less_nat_alt)
  then show ?thesis by (simp add: unat_word_ariths)
qed

lemma loop_measure: "(l :: u32) < n \<Longrightarrow> unat n - unat (l + 1) < unat n - unat l"
  by (simp add: unat_plus1_less word_less_nat_alt)

text \<open>
  The probe loop \<open>for context.loop < context.hslots { ... }\<close> of \<open>find\<close>. The result is
  the error returned (\<open>None\<close> for \<open>nil\<close>: found), the context as the call leaves it
  behind the caller's pointer, and the log of attempted accesses. A panic inside the loop
  is recovered by the deferred function of \<open>find\<close> and becomes the returned error.
\<close>

function find_loop_mmap ::
  "Cdb \<Rightarrow> byte list \<Rightarrow> Context \<Rightarrow> access list \<Rightarrow> error option \<times> Context \<times> access list" where
  "find_loop_mmap c key ctx tr =
     (if loop ctx < hslots ctx then
        (case readNums_mmap c (kpos ctx) of
           (Inl e, t) \<Rightarrow> (Some e, ctx, tr @ t)
         | (Inr (h, pos), t) \<Rightarrow>
             if pos = 0 then (Some EOF, ctx, tr @ t)
             else if h = khash (advance ctx) then
               (case readNums_mmap c pos of
                  (Inl e, t2) \<Rightarrow> (Some e, advance ctx, tr @ t @ t2)
                | (Inr (rklen, rdlen), t2) \<Rightarrow>
                    if rklen = of_nat (length key) then
                      (case match_mmap c key (pos + 8) of
                         (Inl e, t3) \<Rightarrow> (Some e, advance ctx, tr @ t @ t2 @ t3)
                       | (Inr True, t3) \<Rightarrow>
                           (None,
                            (advance ctx)\<lparr>dlen := rdlen, dpos := pos + 8 + of_nat (length key)\<rparr>,
                            tr @ t @ t2 @ t3)
                       | (Inr False, t3) \<Rightarrow>
                           find_loop_mmap c key (advance ctx) (tr @ t @ t2 @ t3))
                    else find_loop_mmap c key (advance ctx) (tr @ t @ t2))
             else find_loop_mmap c key (advance ctx) (tr @ t))
      else (Some EOF, ctx, tr))"
  by pat_completeness auto
termination
  by (relation "measure (\<lambda>(c, key, ctx, tr). unat (hslots ctx) - unat (loop ctx))")
     (auto simp: loop_measure)

declare find_loop_mmap.simps [simp del]

text \<open>
  \<open>find\<close>: on the first step for a key (\<open>loop == 0\<close>) the header entry is read and the
  probe start computed; then the probe loop runs.
\<close>

definition find_mmap ::
  "Cdb \<Rightarrow> byte list \<Rightarrow> Context \<Rightarrow> error option \<times> Context \<times> access list" where
  "find_mmap c key ctx =
     (if loop ctx = 0 then
        (let h = checksum key in
         case readNums_mmap c (push_bit 3 h AND 2047) of
           (Inl e, t) \<Rightarrow> (Some e, ctx, t)
         | (Inr (hp, hs), t) \<Rightarrow>
             (let ctx1 = ctx\<lparr>hpos := hp, hslots := hs\<rparr> in
              if hslots ctx1 = 0 then (Some EOF, ctx1, t)
              else
                let ctx2 = ctx1\<lparr>khash := h\<rparr>;
                    h1 = drop_bit 8 h;
                    h2 = h1 mod hslots ctx2;
                    h3 = push_bit 3 h2
                in find_loop_mmap c key (ctx2\<lparr>kpos := hpos ctx2 + h3\<rparr>) t))
      else find_loop_mmap c key ctx [])"

section \<open>The positioned-read build\<close>

text \<open>
  An \<open>io.ReaderAt\<close>, as a function of the length of the buffer handed in and the offset:
  the bytes it copies to the front of the buffer and the error it returns. The package
  accepts any reader (\<open>New\<close>); \<open>Open\<close> installs an \<open>*os.File\<close>. The field \<open>closer\<close> of
  \<open>Cdb\<close> plays no part in a lookup and is left out.
\<close>

type_synonym readerAt = "nat \<Rightarrow> nat \<Rightarrow> byte list \<times> error option"

record Cdb_rd =
  r :: readerAt

text \<open>
  The call \<open>rd.ReadAt(p, off)\<close>: the buffer \<open>p\<close> after the call and the error. A reader
  cannot write beyond \<open>p\<close>; bytes it does not overwrite keep their old value.
\<close>

definition ReadAt :: "readerAt \<Rightarrow> byte list \<Rightarrow> nat \<Rightarrow> byte list \<times> error option" where
  "ReadAt rd p off =
     (case rd (length p) off of
        (bs, err) \<Rightarrow> (take (length p) bs @ drop (length bs) p, err))"

text \<open>
  \<open>(*os.File).ReadAt\<close> on a file with the given bytes, as the Go library documents it:
  it reads until the buffer is full or the file ends, and returns \<open>io.EOF\<close> exactly when
  it read fewer bytes than the buffer holds.
\<close>

definition osFile :: "byte list \<Rightarrow> readerAt" where
  "osFile data n off =
     (let bs = take n (drop off data)
      in (bs, if length bs < n then Some EOF else None))"

text \<open>
  \<open>readNums\<close>: \<open>context.buf[:8]\<close> panics when the buffer is shorter than 8 bytes; a
  reader's error is raised as a panic; the buffer keeps what the reader wrote.
\<close>

definition readNums_rd ::
  "Cdb_rd \<Rightarrow> u32 \<Rightarrow> Context_rd \<Rightarrow> (error + u32 \<times> u32) \<times> Context_rd \<times> access list" where
  "readNums_rd c pos ctx =
     (if length (buf ctx) < 8 then (Inl RuntimeError, ctx, [])
      else
        case ReadAt (r c) (take 8 (buf ctx)) (unat pos) of
          (p, Some e) \<Rightarrow> (Inl e, ctx\<lparr>buf := p @ drop 8 (buf ctx)\<rparr>, [(unat pos, 8)])
        | (p, None) \<Rightarrow>
            (let ctx' = ctx\<lparr>buf := p @ drop 8 (buf ctx)\<rparr>
             in (Inr (Uint32 (buf ctx'), Uint32 (drop 4 (buf ctx'))), ctx', [(unat pos, 8)])))"

text \<open>
  The loop of \<open>match\<close>: \<open>for n := 0; n < klen; n += len(buf) { ... }\<close>. The local slice
  \<open>buf\<close> is the first \<open>bl\<close> bytes of \<open>context.buf\<close> and shares its memory. With an empty
  buffer and a non-empty key the loop never advances: the function is partial.
\<close>

partial_function (option) match_loop ::
  "Cdb_rd \<Rightarrow> byte list \<Rightarrow> nat \<Rightarrow> nat \<Rightarrow> u32 \<Rightarrow> Context_rd \<Rightarrow> access list \<Rightarrow>
   ((error + bool) \<times> Context_rd \<times> access list) option" where
  "match_loop c key n bl pos ctx tr =
     (if n < length key then
        (let nleft = length key - n;
             bl' = (if bl > nleft then nleft else bl)
         in case ReadAt (r c) (take bl' (buf ctx)) (unat pos) of
              (p, Some e) \<Rightarrow>
                Some (Inl e, ctx\<lparr>buf := p @ drop bl' (buf ctx)\<rparr>, tr @ [(unat pos, bl')])
            | (p, None) \<Rightarrow>
                if p \<noteq> take bl' (drop n key)
                then Some (Inr False, ctx\<lparr>buf := p @ drop bl' (buf ctx)\<rparr>,
                           tr @ [(unat pos, bl')])
                else match_loop c key (n + bl') bl' (pos + of_nat bl')
                       (ctx\<lparr>buf := p @ drop bl' (buf ctx)\<rparr>) (tr @ [(unat pos, bl')]))
      else Some (Inr True, ctx, tr))"

definition match_rd ::
  "Cdb_rd \<Rightarrow> byte list \<Rightarrow> u32 \<Rightarrow> Context_rd \<Rightarrow>
   ((error + bool) \<times> Context_rd \<times> access list) option" where
  "match_rd c key pos ctx = match_loop c key 0 (length (buf ctx)) pos ctx []"

lemma truncate_eqD:
  "Context.truncate a = Context.truncate b \<Longrightarrow>
     loop a = loop b \<and> khash a = khash b \<and> kpos a = kpos b \<and> hpos a = hpos b \<and>
     hslots a = hslots b \<and> dpos a = dpos b \<and> dlen a = dlen b"
  by (simp add: Context.truncate_def)

lemma truncate_advance: "Context.truncate (advance ctx) = advance (Context.truncate ctx)"
  by (simp add: Context.truncate_def advance_def Let_def)

lemma truncate_buf [simp]: "Context.truncate (ctx\<lparr>buf := b\<rparr>) = Context.truncate ctx"
  by (simp add: Context.truncate_def)

lemma ReadAt_length: "ReadAt rd p off = (p', err) \<Longrightarrow> length p' = length p"
  by (auto simp: ReadAt_def split: prod.splits)

lemma readNums_rd_fields:
  "readNums_rd c pos ctx = (res, ctx', t) \<Longrightarrow>
     Context.truncate ctx' = Context.truncate ctx \<and> length (buf ctx') = length (buf ctx)"
  by (auto simp: readNums_rd_def Let_def dest!: ReadAt_length
           split: if_splits prod.splits option.splits)

lemma match_loop_fields_aux:
  assumes "match_loop c key n bl pos ctx tr = Some y"
  shows "Context.truncate (fst (snd y)) = Context.truncate ctx \<and>
         length (buf (fst (snd y))) = length (buf ctx)"
proof (rule match_loop.raw_induct
        [where P = "\<lambda>c key n bl pos ctx tr y.
                      Context.truncate (fst (snd y)) = Context.truncate ctx \<and>
                      length (buf (fst (snd y))) = length (buf ctx)", OF _ assms],
       goal_cases)
  case (1 match_loop' c key n bl pos ctx tr y)
  show ?case
  proof (cases "n < length key")
    case False
    with 1(2) show ?thesis by auto
  next
    case True
    define bl' where "bl' = (if length key - n < bl then length key - n else bl)"
    obtain p err where rd: "ReadAt (r c) (take bl' (buf ctx)) (unat pos) = (p, err)"
      by (cases "ReadAt (r c) (take bl' (buf ctx)) (unat pos)")
    have len: "length (p @ drop bl' (buf ctx)) = length (buf ctx)"
      using ReadAt_length [OF rd] by simp
    show ?thesis
    proof (cases err)
      case (Some e)
      with 1(2) True rd len show ?thesis by (auto simp: Let_def bl'_def [symmetric])
    next
      case None
      show ?thesis
      proof (cases "p \<noteq> take bl' (drop n key)")
        case True
        with 1(2) \<open>n < length key\<close> rd len None show ?thesis
          by (auto simp: Let_def bl'_def [symmetric])
      next
        case False
        with 1(2) \<open>n < length key\<close> rd None
        have "match_loop' c key (n + bl') bl' (pos + of_nat bl')
                (ctx\<lparr>buf := p @ drop bl' (buf ctx)\<rparr>) (tr @ [(unat pos, bl')]) = Some y"
          by (auto simp: Let_def bl'_def [symmetric])
        from 1(1) [OF this] len show ?thesis by simp
      qed
    qed
  qed
qed

lemma match_rd_fields:
  "match_rd c key pos ctx = Some (res, ctx', t) \<Longrightarrow>
     Context.truncate ctx' = Context.truncate ctx \<and> length (buf ctx') = length (buf ctx)"
  using match_loop_fields_aux [of c key 0 "length (buf ctx)" pos ctx "[]" "(res, ctx', t)"]
  by (simp add: match_rd_def)

lemma readNums_rd_loop:
  "(res, ctx', t) = readNums_rd c pos ctx \<Longrightarrow> loop ctx' = loop ctx \<and> hslots ctx' = hslots ctx"
  using readNums_rd_fields [of c pos ctx res ctx' t] truncate_eqD [of ctx' ctx] by simp

lemma match_rd_loop:
  "match_rd c key pos ctx = Some (res, ctx', t) \<Longrightarrow>
     loop ctx' = loop ctx \<and> hslots ctx' = hslots ctx"
  using match_rd_fields [of c key pos ctx res ctx' t] truncate_eqD [of ctx' ctx] by simp

text \<open>
  The probe loop of \<open>find\<close> in the positioned-read build. Every read also updates the
  scratch buffer of the context. The result is \<open>None\<close> only if \<open>match\<close> does not return.
\<close>

function find_loop_rd ::
  "Cdb_rd \<Rightarrow> byte list \<Rightarrow> Context_rd \<Rightarrow> access list \<Rightarrow>
   (error option \<times> Context_rd \<times> access list) option" where
  "find_loop_rd c key ctx tr =
     (if loop ctx < hslots ctx then
        (case readNums_rd c (kpos ctx) ctx of
           (Inl e, ctx1, t) \<Rightarrow> Some (Some e, ctx1, tr @ t)
         | (Inr (h, pos), ctx1, t) \<Rightarrow>
             if pos = 0 then Some (Some EOF, ctx1, tr @ t)
             else if h = khash (advance ctx1) then
               (case readNums_rd c pos (advance ctx1) of
                  (Inl e, ctx2, t2) \<Rightarrow> Some (Some e, ctx2, tr @ t @ t2)
                | (Inr (rklen, rdlen), ctx2, t2) \<Rightarrow>
                    if rklen = of_nat (length key) then
                      (case match_rd c key (pos + 8) ctx2 of
                         None \<Rightarrow> None
                       | Some (Inl e, ctx3, t3) \<Rightarrow> Some (Some e, ctx3, tr @ t @ t2 @ t3)
                       | Some (Inr True, ctx3, t3) \<Rightarrow>
                           Some (None,
                                 ctx3\<lparr>dlen := rdlen, dpos := pos + 8 + of_nat (length key)\<rparr>,
                                 tr @ t @ t2 @ t3)
                       | Some (Inr False, ctx3, t3) \<Rightarrow>
                           find_loop_rd c key ctx3 (tr @ t @ t2 @ t3))
                    else find_loop_rd c key ctx2 (tr @ t @ t2))
             else find_loop_rd c key (advance ctx1) (tr @ t))
      else Some (Some EOF, ctx, tr))"
  by pat_completeness auto
termination
  by (relation "measure (\<lambda>(c, key, ctx, tr). unat (hslots ctx) - unat (loop ctx))")
     (auto simp: loop_measure dest!: readNums_rd_loop match_rd_loop)

declare find_loop_rd.simps [simp del]


definition find_rd ::
  "Cdb_rd \<Rightarrow> byte list \<Rightarrow> Context_rd \<Rightarrow>
   (error option \<times> Context_rd \<times> access list) option" where
  "find_rd c key ctx =
     (if loop ctx = 0 then
        (let h = checksum key in
         case readNums_rd c (push_bit 3 h AND 2047) ctx of
           (Inl e, ctx0, t) \<Rightarrow> Some (Some e, ctx0, t)
         | (Inr (hp, hs), ctx0, t) \<Rightarrow>
             (let ctx1 = ctx0\<lparr>hpos := hp, hslots := hs\<rparr> in
              if hslots ctx1 = 0 then Some (Some EOF, ctx1, t)
              else
                let ctx2 = ctx1\<lparr>khash := h\<rparr>;
                    h1 = drop_bit 8 h;
                    h2 = h1 mod hslots ctx2;
                    h3 = push_bit 3 h2
                in find_loop_rd c key (ctx2\<lparr>kpos := hpos ctx2 + h3\<rparr>) t))
      else find_loop_rd c key ctx [])"

section \<open>The exported operations\<close>

text \<open>\<open>NewContext\<close>: the zero value, and in the positioned-read build a 64-byte buffer.\<close>

definition NewContext_mmap :: Context where
  "NewContext_mmap =
     \<lparr>loop = 0, khash = 0, kpos = 0, hpos = 0, hslots = 0, dpos = 0, dlen = 0\<rparr>"

definition NewContext_rd :: Context_rd where
  "NewContext_rd =
     \<lparr>loop = 0, khash = 0, kpos = 0, hpos = 0, hslots = 0, dpos = 0, dlen = 0,
      buf = replicate 64 0\<rparr>"

text \<open>\<open>FindStart\<close>: \<open>context.loop = 0\<close>, the same in both builds.\<close>

definition FindStart :: "'a Context_scheme \<Rightarrow> 'a Context_scheme" where
  "FindStart ctx = ctx\<lparr>loop := 0\<rparr>"

text \<open>
  What a call hands back: the Go result pair, or a panic that nothing recovers. In the
  memory-mapped build the slice expression on \<open>dpos\<close> and \<open>dlen\<close> stands outside
  \<open>find\<close> and its deferred \<open>recover\<close>.
\<close>

datatype 'a outcome = Returned "'a option" "error option" | Panicked error

definition FindNext_mmap ::
  "Cdb \<Rightarrow> byte list \<Rightarrow> Context \<Rightarrow> byte list outcome \<times> Context \<times> access list" where
  "FindNext_mmap c key ctx =
     (case find_mmap c key ctx of
        (Some e, ctx', t) \<Rightarrow> (Returned None (Some e), ctx', t)
      | (None, ctx', t) \<Rightarrow>
          (case slice (mmappedData c) (unat (dpos ctx')) (unat (dpos ctx' + dlen ctx')) of
             Inl e \<Rightarrow> (Panicked e, ctx', t)
           | Inr d \<Rightarrow> (Returned (Some d) None, ctx', t)))"

definition Find_mmap ::
  "Cdb \<Rightarrow> byte list \<Rightarrow> Context \<Rightarrow> byte list outcome \<times> Context \<times> access list" where
  "Find_mmap c key ctx = FindNext_mmap c key (FindStart ctx)"

definition Data_mmap ::
  "Cdb \<Rightarrow> byte list \<Rightarrow> Context \<Rightarrow> byte list outcome \<times> Context \<times> access list" where
  "Data_mmap c key ctx =
     (case find_mmap c key (FindStart ctx) of
        (Some e, ctx', t) \<Rightarrow> (Returned None (Some e), ctx', t)
      | (None, ctx', t) \<Rightarrow>
          (case slice (mmappedData c) (unat (dpos ctx')) (unat (dpos ctx' + dlen ctx')) of
             Inl e \<Rightarrow> (Panicked e, ctx', t)
           | Inr d \<Rightarrow> (Returned (Some d) None, ctx', t)))"

text \<open>
  In the positioned-read build \<open>FindNext\<close> returns an \<open>io.SectionReader\<close> over the
  reader, given here by its offset and length; nothing is read to build it.
\<close>

definition FindNext_rd ::
  "Cdb_rd \<Rightarrow> byte list \<Rightarrow> Context_rd \<Rightarrow>
   ((nat \<times> nat) outcome \<times> Context_rd \<times> access list) option" where
  "FindNext_rd c key ctx =
     (case find_rd c key ctx of
        None \<Rightarrow> None
      | Some (Some e, ctx', t) \<Rightarrow> Some (Returned None (Some e), ctx', t)
      | Some (None, ctx', t) \<Rightarrow>
          Some (Returned (Some (unat (dpos ctx'), unat (dlen ctx'))) None, ctx', t))"

definition Find_rd ::
  "Cdb_rd \<Rightarrow> byte list \<Rightarrow> Context_rd \<Rightarrow>
   ((nat \<times> nat) outcome \<times> Context_rd \<times> access list) option" where
  "Find_rd c key ctx = FindNext_rd c key (FindStart ctx)"

text \<open>
  \<open>Data\<close> reads the value into a fresh buffer of \<open>dlen\<close> zero bytes and returns the
  buffer together with the error of that read.
\<close>

definition Data_rd ::
  "Cdb_rd \<Rightarrow> byte list \<Rightarrow> Context_rd \<Rightarrow>
   (byte list outcome \<times> Context_rd \<times> access list) option" where
  "Data_rd c key ctx =
     (case find_rd c key (FindStart ctx) of
        None \<Rightarrow> None
      | Some (Some e, ctx', t) \<Rightarrow> Some (Returned None (Some e), ctx', t)
      | Some (None, ctx', t) \<Rightarrow>
          (case ReadAt (r c) (replicate (unat (dlen ctx')) 0) (unat (dpos ctx')) of
             (data, err) \<Rightarrow>
               Some (Returned (Some data) err, ctx', t @ [(unat (dpos ctx'), unat (dlen ctx'))])))"

declare match_loop.simps [code]

section \<open>One iteration of the probe loop\<close>

text \<open>
  For reasoning, the body of the probe loop on its own: either the step returns (\<open>Inl\<close>,
  with the error and the context) or the loop goes round again (\<open>Inr\<close>, with the
  context). \<open>find_loop_mmap_unfold\<close> and \<open>find_loop_rd_unfold\<close> show that the loops
  defined above are the iterations of these bodies.
\<close>

definition probe_mmap ::
  "Cdb \<Rightarrow> byte list \<Rightarrow> Context \<Rightarrow> ((error option \<times> Context) + Context) \<times> access list" where
  "probe_mmap c key ctx =
     (case readNums_mmap c (kpos ctx) of
        (Inl e, t) \<Rightarrow> (Inl (Some e, ctx), t)
      | (Inr (h, pos), t) \<Rightarrow>
          if pos = 0 then (Inl (Some EOF, ctx), t)
          else if h = khash ctx then
            (case readNums_mmap c pos of
               (Inl e, t2) \<Rightarrow> (Inl (Some e, advance ctx), t @ t2)
             | (Inr (rklen, rdlen), t2) \<Rightarrow>
                 if rklen = of_nat (length key) then
                   (case match_mmap c key (pos + 8) of
                      (Inl e, t3) \<Rightarrow> (Inl (Some e, advance ctx), t @ t2 @ t3)
                    | (Inr True, t3) \<Rightarrow>
                        (Inl (None,
                              (advance ctx)\<lparr>dlen := rdlen,
                                             dpos := pos + 8 + of_nat (length key)\<rparr>),
                         t @ t2 @ t3)
                    | (Inr False, t3) \<Rightarrow> (Inr (advance ctx), t @ t2 @ t3))
                 else (Inr (advance ctx), t @ t2))
          else (Inr (advance ctx), t))"

lemma find_loop_mmap_unfold:
  "find_loop_mmap c key ctx tr =
     (if loop ctx < hslots ctx then
        (case probe_mmap c key ctx of
           (Inl (e, ctx'), t) \<Rightarrow> (e, ctx', tr @ t)
         | (Inr ctx', t) \<Rightarrow> find_loop_mmap c key ctx' (tr @ t))
      else (Some EOF, ctx, tr))"
  by (subst find_loop_mmap.simps)
     (simp add: probe_mmap_def split: prod.splits sum.splits bool.splits)

lemma probe_mmap_Inr: "probe_mmap c key ctx = (Inr ctx', t) \<Longrightarrow> ctx' = advance ctx"
  by (auto simp: probe_mmap_def split: prod.splits sum.splits bool.splits if_splits)

lemma probe_mmap_Inl:
  "probe_mmap c key ctx = (Inl (e, ctx'), t) \<Longrightarrow>
     hpos ctx' = hpos ctx \<and> hslots ctx' = hslots ctx \<and> khash ctx' = khash ctx \<and>
     (loop ctx' = loop ctx \<or> loop ctx' = loop ctx + 1)"
  by (auto simp: probe_mmap_def split: prod.splits sum.splits bool.splits if_splits)

lemma word_le_plus1: "(l :: u32) < n \<Longrightarrow> l \<le> l + 1 \<and> l + 1 \<le> n"
  by (simp add: word_le_nat_alt word_less_nat_alt unat_plus1_less)

lemma find_loop_mmap_induct2 [case_names step]:
  assumes step: "\<And>ctx tr.
      (\<And>t. loop ctx < hslots ctx \<Longrightarrow> probe_mmap c key ctx = (Inr (advance ctx), t) \<Longrightarrow>
             P (advance ctx) (tr @ t)) \<Longrightarrow> P ctx tr"
  shows "P ctx tr"
proof -
  have "\<forall>ctx tr. unat (hslots ctx) - unat (loop ctx) = n \<longrightarrow> P ctx tr" for n
  proof (induction n rule: less_induct)
    case (less n)
    show ?case
    proof (intro allI impI)
      fix ctx :: Context and tr :: "access list"
      assume n: "unat (hslots ctx) - unat (loop ctx) = n"
      have "P (advance ctx) (tr @ t)" if "loop ctx < hslots ctx" for t
      proof -
        from that have "unat (hslots (advance ctx)) - unat (loop (advance ctx)) < n"
          unfolding n [symmetric] by (simp add: loop_measure)
        with less show ?thesis by blast
      qed
      then show "P ctx tr" using step [of ctx tr] by blast
    qed
  qed
  then show ?thesis by blast
qed

lemma find_loop_mmap_inv:
  "find_loop_mmap c key ctx tr = (res, ctx', tr') \<Longrightarrow>
     hpos ctx' = hpos ctx \<and> hslots ctx' = hslots ctx \<and> khash ctx' = khash ctx \<and>
     (\<exists>t. tr' = tr @ t) \<and> loop ctx \<le> loop ctx' \<and>
     (loop ctx \<le> hslots ctx \<longrightarrow> loop ctx' \<le> hslots ctx)"
proof (induction ctx tr rule: find_loop_mmap_induct2 [where c = c and key = key])
  case (step ctx tr)
  show ?case
  proof (cases "loop ctx < hslots ctx")
    case False
    with step.prems show ?thesis by (simp add: find_loop_mmap_unfold [of c key ctx])
  next
    case True
    obtain x t where p: "probe_mmap c key ctx = (x, t)" by (cases "probe_mmap c key ctx")
    show ?thesis
    proof (cases x)
      case (Inl a)
      obtain e cx where a: "a = (e, cx)" by (cases a)
      from step.prems True p Inl a have "res = e" "ctx' = cx" "tr' = tr @ t"
        by (simp_all add: find_loop_mmap_unfold [of c key ctx])
      with probe_mmap_Inl [of c key ctx e cx t] p Inl a word_le_plus1 [OF True]
      show ?thesis by auto
    next
      case (Inr cx)
      with probe_mmap_Inr p have cx: "cx = advance ctx" by blast
      from step.prems True p Inr cx
      have "find_loop_mmap c key (advance ctx) (tr @ t) = (res, ctx', tr')"
        by (simp add: find_loop_mmap_unfold [of c key ctx])
      from step.IH [OF True _ this] p Inr cx word_le_plus1 [OF True] show ?thesis by auto
    qed
  qed
qed

lemma match_loop_total:
  "0 < bl \<Longrightarrow> match_loop c key n bl pos ctx tr \<noteq> None"
proof (induction "length key - n" arbitrary: n bl pos ctx tr rule: less_induct)
  case less
  show ?case
  proof (cases "n < length key")
    case False
    then show ?thesis by (simp add: match_loop.simps [of c key n])
  next
    case True
    define bl' where "bl' = (if length key - n < bl then length key - n else bl)"
    from True less.prems have pos: "0 < bl'" by (simp add: bl'_def)
    obtain p err where rd: "ReadAt (r c) (take bl' (buf ctx)) (unat pos) = (p, err)"
      by (cases "ReadAt (r c) (take bl' (buf ctx)) (unat pos)")
    from pos True have "length key - (n + bl') < length key - n" by simp
    from less.hyps [OF this pos]
    have "match_loop c key (n + bl') bl' (pos + of_nat bl')
            (ctx\<lparr>buf := p @ drop bl' (buf ctx)\<rparr>) (tr @ [(unat pos, bl')]) \<noteq> None" .
    then show ?thesis
      apply (subst match_loop.simps)
      unfolding Let_def bl'_def [symmetric]
      using True rd by (auto split: option.splits)
  qed
qed

lemma match_rd_total: "0 < length (buf ctx) \<Longrightarrow> match_rd c key pos ctx \<noteq> None"
  unfolding match_rd_def by (rule match_loop_total)

lemma buf_advance [simp]: "buf (advance ctx) = buf ctx"
  by (simp add: advance_def Let_def)

lemma readNums_rd_Inr_buf:
  "readNums_rd c pos ctx = (Inr v, ctx', t) \<Longrightarrow> 8 \<le> length (buf ctx')"
  using readNums_rd_fields [of c pos ctx "Inr v" ctx' t]
  by (auto simp: readNums_rd_def split: if_splits)

lemma readNums_rd_trace:
  "readNums_rd c pos ctx = (res, ctx', t) \<Longrightarrow> 8 \<le> length (buf ctx) \<Longrightarrow> t = [(unat pos, 8)]"
  by (auto simp: readNums_rd_def Let_def split: if_splits prod.splits option.splits)

definition probe_rd ::
  "Cdb_rd \<Rightarrow> byte list \<Rightarrow> Context_rd \<Rightarrow>
   (((error option \<times> Context_rd) + Context_rd) \<times> access list) option" where
  "probe_rd c key ctx =
     (case readNums_rd c (kpos ctx) ctx of
        (Inl e, ctx1, t) \<Rightarrow> Some (Inl (Some e, ctx1), t)
      | (Inr (h, pos), ctx1, t) \<Rightarrow>
          if pos = 0 then Some (Inl (Some EOF, ctx1), t)
          else if h = khash (advance ctx1) then
            (case readNums_rd c pos (advance ctx1) of
               (Inl e, ctx2, t2) \<Rightarrow> Some (Inl (Some e, ctx2), t @ t2)
             | (Inr (rklen, rdlen), ctx2, t2) \<Rightarrow>
                 if rklen = of_nat (length key) then
                   (case match_rd c key (pos + 8) ctx2 of
                      None \<Rightarrow> None
                    | Some (Inl e, ctx3, t3) \<Rightarrow> Some (Inl (Some e, ctx3), t @ t2 @ t3)
                    | Some (Inr True, ctx3, t3) \<Rightarrow>
                        Some (Inl (None,
                                   ctx3\<lparr>dlen := rdlen,
                                        dpos := pos + 8 + of_nat (length key)\<rparr>),
                              t @ t2 @ t3)
                    | Some (Inr False, ctx3, t3) \<Rightarrow> Some (Inr ctx3, t @ t2 @ t3))
                 else Some (Inr ctx2, t @ t2))
          else Some (Inr (advance ctx1), t))"

lemma find_loop_rd_unfold:
  "find_loop_rd c key ctx tr =
     (if loop ctx < hslots ctx then
        (case probe_rd c key ctx of
           None \<Rightarrow> None
         | Some (Inl (e, ctx'), t) \<Rightarrow> Some (e, ctx', tr @ t)
         | Some (Inr ctx', t) \<Rightarrow> find_loop_rd c key ctx' (tr @ t))
      else Some (Some EOF, ctx, tr))"
  by (subst find_loop_rd.simps)
     (simp add: probe_rd_def split: prod.splits sum.splits bool.splits option.splits)

lemma truncate_upd [simp]:
  "Context.truncate (ctx\<lparr>dlen := a\<rparr>) = (Context.truncate ctx)\<lparr>dlen := a\<rparr>"
  "Context.truncate (ctx\<lparr>dpos := b\<rparr>) = (Context.truncate ctx)\<lparr>dpos := b\<rparr>"
  "Context.truncate (ctx\<lparr>hpos := b\<rparr>) = (Context.truncate ctx)\<lparr>hpos := b\<rparr>"
  "Context.truncate (ctx\<lparr>hslots := b\<rparr>) = (Context.truncate ctx)\<lparr>hslots := b\<rparr>"
  "Context.truncate (ctx\<lparr>khash := b\<rparr>) = (Context.truncate ctx)\<lparr>khash := b\<rparr>"
  "Context.truncate (ctx\<lparr>kpos := b\<rparr>) = (Context.truncate ctx)\<lparr>kpos := b\<rparr>"
  "Context.truncate (ctx\<lparr>loop := b\<rparr>) = (Context.truncate ctx)\<lparr>loop := b\<rparr>"
  by (simp_all add: Context.truncate_def)

lemma probe_rd_Inr:
  assumes "probe_rd c key ctx = Some (Inr ctx', t)"
  shows "Context.truncate ctx' = advance (Context.truncate ctx) \<and>
         length (buf ctx') = length (buf ctx)"
  using assms
  by (auto simp: probe_rd_def truncate_advance
        split: prod.splits sum.splits bool.splits if_splits option.splits
        dest!: readNums_rd_fields match_rd_fields)

lemma probe_rd_Inl:
  assumes "probe_rd c key ctx = Some (Inl (e, ctx'), t)"
  shows "length (buf ctx') = length (buf ctx) \<and>
         hpos ctx' = hpos ctx \<and> hslots ctx' = hslots ctx \<and> khash ctx' = khash ctx \<and>
         (loop ctx' = loop ctx \<or> loop ctx' = loop ctx + 1)"
  using assms
  by (auto simp: probe_rd_def
        split: prod.splits sum.splits bool.splits if_splits option.splits
        dest!: readNums_rd_fields match_rd_fields truncate_eqD)

lemma match_rd_after_read:
  "readNums_rd c p ctx1 = (Inr v, ctx2, t2) \<Longrightarrow> match_rd c key pos ctx2 = None \<Longrightarrow> False"
proof -
  assume rd: "readNums_rd c p ctx1 = (Inr v, ctx2, t2)" and m: "match_rd c key pos ctx2 = None"
  from readNums_rd_Inr_buf [OF rd] have "0 < length (buf ctx2)" by arith
  from match_rd_total [OF this, of c key pos] m show False by blast
qed

lemma probe_rd_total: "probe_rd c key ctx \<noteq> None"
  by (auto simp: probe_rd_def split: prod.splits sum.splits bool.splits option.splits
           dest: match_rd_after_read)

lemma find_loop_rd_induct2 [case_names step]:
  assumes step: "\<And>ctx tr.
      (\<And>ctx' t. loop ctx < hslots ctx \<Longrightarrow> probe_rd c key ctx = Some (Inr ctx', t) \<Longrightarrow>
             P ctx' (tr @ t)) \<Longrightarrow> P ctx tr"
  shows "P ctx tr"
proof -
  have "\<forall>ctx tr. unat (hslots ctx) - unat (loop ctx) = n \<longrightarrow> P ctx tr" for n
  proof (induction n rule: less_induct)
    case (less n)
    show ?case
    proof (intro allI impI)
      fix ctx :: Context_rd and tr :: "access list"
      assume n: "unat (hslots ctx) - unat (loop ctx) = n"
      have "P ctx' (tr @ t)"
        if "loop ctx < hslots ctx" and "probe_rd c key ctx = Some (Inr ctx', t)" for ctx' t
      proof -
        from probe_rd_Inr [OF that(2)] have "Context.truncate ctx' = advance (Context.truncate ctx)"
          by simp
        then have "loop ctx' = loop ctx + 1" "hslots ctx' = hslots ctx"
          using truncate_eqD [of ctx' "advance ctx"] by (simp_all add: truncate_advance)
        with that(1) have "unat (hslots ctx') - unat (loop ctx') < n"
          unfolding n [symmetric] by (simp add: loop_measure)
        with less show ?thesis by blast
      qed
      then show "P ctx tr" using step [of ctx tr] by blast
    qed
  qed
  then show ?thesis by blast
qed

lemma find_loop_rd_total: "find_loop_rd c key ctx tr \<noteq> None"
proof (induction ctx tr rule: find_loop_rd_induct2 [where c = c and key = key])
  case (step ctx tr)
  then show ?case
    using probe_rd_total [of c key ctx]
    by (subst find_loop_rd_unfold) (auto split: option.splits sum.splits prod.splits)
qed

lemma find_rd_total: "find_rd c key ctx \<noteq> None"
  by (simp add: find_rd_def Let_def find_loop_rd_total split: prod.splits sum.splits
           del: not_None_eq)

lemma find_loop_rd_inv:
  "find_loop_rd c key ctx tr = Some (res, ctx', tr') \<Longrightarrow>
     hpos ctx' = hpos ctx \<and> hslots ctx' = hslots ctx \<and> khash ctx' = khash ctx \<and>
     length (buf ctx') = length (buf ctx) \<and>
     (\<exists>t. tr' = tr @ t) \<and> loop ctx \<le> loop ctx' \<and>
     (loop ctx \<le> hslots ctx \<longrightarrow> loop ctx' \<le> hslots ctx)"
proof (induction ctx tr rule: find_loop_rd_induct2 [where c = c and key = key])
  case (step ctx tr)
  show ?case
  proof (cases "loop ctx < hslots ctx")
    case False
    with step.prems show ?thesis by (simp add: find_loop_rd_unfold [of c key ctx])
  next
    case True
    obtain x t where p: "probe_rd c key ctx = Some (x, t)"
      using probe_rd_total [of c key ctx] by (cases "probe_rd c key ctx") auto
    show ?thesis
    proof (cases x)
      case (Inl a)
      obtain e cx where a: "a = (e, cx)" by (cases a)
      from step.prems True p Inl a have "res = e" "ctx' = cx" "tr' = tr @ t"
        by (simp_all add: find_loop_rd_unfold [of c key ctx])
      with probe_rd_Inl [of c key ctx e cx t] p Inl a word_le_plus1 [OF True]
      show ?thesis by auto
    next
      case (Inr cx)
      from probe_rd_Inr [of c key ctx cx t] p Inr
      have cx: "Context.truncate cx = advance (Context.truncate ctx)"
        and len: "length (buf cx) = length (buf ctx)" by simp_all
      from cx have f: "loop cx = loop ctx + 1" "hslots cx = hslots ctx" "hpos cx = hpos ctx"
        "khash cx = khash ctx"
        using truncate_eqD [of cx "advance ctx"] by (simp_all add: truncate_advance)
      from step.prems True p Inr
      have "find_loop_rd c key cx (tr @ t) = Some (res, ctx', tr')"
        by (simp add: find_loop_rd_unfold [of c key ctx])
      from step.IH [OF True _ this] p Inr f len word_le_plus1 [OF True] show ?thesis by auto
    qed
  qed
qed

lemma readNums_mmap_trace: "snd (readNums_mmap c pos) = [(unat pos, 8)]"
  by (simp add: readNums_mmap_def split: sum.splits)

lemma match_mmap_trace:
  "snd (match_mmap c key pos) = [(unat pos, unat (of_nat (length key) :: u32))]"
  by (simp add: match_mmap_def Let_def split: sum.splits)

lemma readNums_rd_Inr_trace:
  "readNums_rd c pos ctx = (Inr v, ctx', t) \<Longrightarrow> t = [(unat pos, 8)]"
  by (auto simp: readNums_rd_def Let_def split: if_splits prod.splits option.splits)

lemma readNums_mmap_fst:
  "fst (readNums_mmap c pos) = x \<Longrightarrow> readNums_mmap c pos = (x, [(unat pos, 8)])"
  using readNums_mmap_trace [of c pos] by (cases "readNums_mmap c pos") simp

lemma match_mmap_fst:
  "fst (match_mmap c key pos) = x \<Longrightarrow>
     match_mmap c key pos = (x, [(unat pos, unat (of_nat (length key) :: u32))])"
  using match_mmap_trace [of c key pos] by (cases "match_mmap c key pos") simp

lemma readNums_mmap_cases:
  obtains e where "readNums_mmap c pos = (Inl e, [(unat pos, 8)])"
  | a b where "readNums_mmap c pos = (Inr (a, b), [(unat pos, 8)])"
  by (cases "slice (mmappedData c) (unat pos) (unat (pos + 8))")
     (auto simp: readNums_mmap_def)

section \<open>The key hash\<close>



lemma unat_ucast_byte: "unat (ucast (c :: byte) :: u32) = unat c"
proof -
  have "unat c < 2 ^ 8" using unsigned_less [of c] by simp
  then have "unat c < 2 ^ 32" by simp
  then show ?thesis by (simp add: unsigned_ucast_eq take_bit_nat_eq_self)
qed

lemma hdr_word: "(push_bit 3 (h :: u32) AND 2047) = (h AND 0xFF) * 8"
proof -
  have a: "(2047::u32) = mask 11" by (simp add: mask_eq_exp_minus_1)
  have b: "(0xFF::u32) = mask 8" by (simp add: mask_eq_exp_minus_1)
  have c: "(h AND mask 8) * 8 = push_bit 3 (h AND mask 8)" by (simp add: push_bit_eq_mult)
  show ?thesis unfolding a b c
    by (rule bit_word_eqI) (auto simp: bit_simps)
qed

lemma unat_and_255: "unat ((h :: u32) AND 0xFF) = unat h mod 256"
proof -
  have b: "(0xFF::u32) = mask 8" by (simp add: mask_eq_exp_minus_1)
  show ?thesis unfolding b
    by (simp add: take_bit_eq_mask [symmetric] unsigned_take_bit_eq take_bit_eq_mod unat_mod)
qed

lemma hdr_nat: "unat (push_bit 3 (h :: u32) AND 2047) = (unat h mod 256) * 8"
proof -
  have "unat h mod 256 * 8 < 2 ^ 32"
  proof -
    have "unat h mod 256 < 256" by simp
    then show ?thesis by simp
  qed
  then show ?thesis
    by (simp add: hdr_word unat_word_ariths unat_and_255)
qed

lemma checksum_snoc:
  "checksum (bs @ [c]) = (push_bit 5 (checksum bs) + checksum bs) XOR ucast c"
  by (simp add: checksum_def)

lemma checksum_snoc_nat:
  "unat (checksum (bs @ [c])) = (unat (checksum bs) * 33 mod 2 ^ 32) XOR unat c"
proof -
  have "push_bit 5 (checksum bs) + checksum bs = checksum bs * 33"
    by (simp add: push_bit_eq_mult)
  then show ?thesis
    by (simp add: checksum_snoc unsigned_xor_eq unat_ucast_byte unat_word_ariths mult.commute)
qed

text \<open>
  C8. The key hash starts from 5381 and folds each byte \<open>c\<close> into \<open>h\<close> as
  \<open>((h << 5) + h) XOR c\<close>, that is \<open>h * 33 XOR c\<close> modulo \<open>2^32\<close>; the hash of the empty
  key is 5381 and the hash of the one-byte key \<open>a\<close> is \<open>(5381 * 33) XOR 97\<close>.
\<close>

theorem checksum_exact:
  "checksum [] = 5381 \<and>
   checksum [0x61] = (5381 * 33) XOR 0x61 \<and>
   (\<forall>bs c. checksum (bs @ [c]) = (push_bit 5 (checksum bs) + checksum bs) XOR ucast c) \<and>
   (\<forall>bs c. unat (checksum (bs @ [c])) = (unat (checksum bs) * 33 mod 2 ^ 32) XOR unat c)"
proof -
  have "checksum [] = 5381" by (simp add: checksum_def)
  moreover have "checksum [0x61] = (5381 * 33) XOR 0x61" by (simp add: checksum_def)
  ultimately show ?thesis using checksum_snoc checksum_snoc_nat by blast
qed

section \<open>The first step: the header entry\<close>

lemma first_step_mmap:
  assumes "loop ctx = 0"
  shows "\<exists>res ctx' t.
           find_mmap c key ctx = (res, ctx', (unat (checksum key) mod 256 * 8, 8) # t) \<and>
           (\<forall>hp hs. fst (readNums_mmap c ((checksum key AND 0xFF) * 8)) = Inr (hp, hs) \<longrightarrow>
                      hpos ctx' = hp \<and> hslots ctx' = hs)"
proof -
  define off :: u32 where "off = push_bit 3 (checksum key) AND 2047"
  have off: "unat off = unat (checksum key) mod 256 * 8" "(checksum key AND 0xFF) * 8 = off"
    unfolding off_def by (rule hdr_nat, rule hdr_word [symmetric])
  show ?thesis
  proof (cases rule: readNums_mmap_cases [of c off])
    case (1 e)
    with assms off show ?thesis by (simp add: find_mmap_def Let_def off_def)
  next
    case (2 hp hs)
    show ?thesis
    proof (cases "hs = 0")
      case True
      with 2 assms off show ?thesis by (simp add: find_mmap_def Let_def off_def)
    next
      case False
      define ctx2 where "ctx2 = ctx\<lparr>hpos := hp, hslots := hs, khash := checksum key,
        kpos := hp + push_bit 3 (drop_bit 8 (checksum key) mod hs)\<rparr>"
      obtain res ctx' tr' where fl: "find_loop_mmap c key ctx2 [(unat off, 8)] = (res, ctx', tr')"
        by (cases "find_loop_mmap c key ctx2 [(unat off, 8)]")
      from find_loop_mmap_inv [OF fl] obtain t where
        "hpos ctx' = hp" "hslots ctx' = hs" "tr' = (unat off, 8) # t"
        by (auto simp: ctx2_def)
      moreover from 2 assms False fl have "find_mmap c key ctx = (res, ctx', tr')"
        by (simp add: find_mmap_def Let_def off_def [symmetric] ctx2_def)
      ultimately show ?thesis using 2 off by auto
    qed
  qed
qed

lemma first_step_rd:
  assumes "loop cx = 0" and "8 \<le> length (buf cx)"
  shows "\<exists>res cx' t.
           find_rd d key cx = Some (res, cx', (unat (checksum key) mod 256 * 8, 8) # t) \<and>
           (\<forall>hp hs cx0 t0.
              readNums_rd d ((checksum key AND 0xFF) * 8) cx = (Inr (hp, hs), cx0, t0) \<longrightarrow>
              hpos cx' = hp \<and> hslots cx' = hs)"
proof -
  define off :: u32 where "off = push_bit 3 (checksum key) AND 2047"
  have off: "unat off = unat (checksum key) mod 256 * 8" "(checksum key AND 0xFF) * 8 = off"
    unfolding off_def by (rule hdr_nat, rule hdr_word [symmetric])
  obtain x cx0 t0 where rn: "readNums_rd d off cx = (x, cx0, t0)"
    by (cases "readNums_rd d off cx")
  from readNums_rd_trace [OF rn assms(2)] have t0: "t0 = [(unat off, 8)]" .
  show ?thesis
  proof (cases x)
    case (Inl e)
    with rn t0 assms off show ?thesis by (simp add: find_rd_def Let_def off_def)
  next
    case (Inr v)
    obtain hp hs where v: "v = (hp, hs)" by (cases v)
    show ?thesis
    proof (cases "hs = 0")
      case True
      with rn t0 Inr v assms off show ?thesis by (simp add: find_rd_def Let_def off_def)
    next
      case False
      define cx2 where "cx2 = cx0\<lparr>hpos := hp, hslots := hs, khash := checksum key,
        kpos := hp + push_bit 3 (drop_bit 8 (checksum key) mod hs)\<rparr>"
      obtain res cx' tr' where fl: "find_loop_rd d key cx2 [(unat off, 8)] = Some (res, cx', tr')"
        using find_loop_rd_total [of d key cx2 "[(unat off, 8)]"]
        by (cases "find_loop_rd d key cx2 [(unat off, 8)]") auto
      from find_loop_rd_inv [OF fl] obtain t where
        "hpos cx' = hp" "hslots cx' = hs" "tr' = (unat off, 8) # t"
        by (auto simp: cx2_def)
      moreover from rn t0 Inr v assms False fl have "find_rd d key cx = Some (res, cx', tr')"
        by (simp add: find_rd_def Let_def off_def [symmetric] cx2_def)
      ultimately show ?thesis using rn Inr v off by auto
    qed
  qed
qed

text \<open>
  C2. The offset \<open>(h << 3) AND 2047\<close> that the code computes in 32-bit arithmetic is
  \<open>(h AND 0xFF) * 8\<close>, that is 8 times the low byte of the hash. On the first step for a
  key (\<open>loop = 0\<close>) the first access of \<open>find\<close> is the 8-byte read at that offset, and
  when the read succeeds its two numbers are the \<open>hpos\<close> and \<open>hslots\<close> of the context
  the step leaves behind.
\<close>

theorem first_step_reads_header_entry:
  "(\<forall>h :: u32. push_bit 3 h AND 2047 = (h AND 0xFF) * 8 \<and>
                unat (push_bit 3 h AND 2047) = unat h mod 256 * 8) \<and>
   (loop ctx = 0 \<longrightarrow>
      (\<exists>res ctx' t.
         find_mmap c key ctx = (res, ctx', (unat (checksum key) mod 256 * 8, 8) # t) \<and>
         (\<forall>hp hs. fst (readNums_mmap c ((checksum key AND 0xFF) * 8)) = Inr (hp, hs) \<longrightarrow>
                    hpos ctx' = hp \<and> hslots ctx' = hs))) \<and>
   (loop cx = 0 \<and> 8 \<le> length (buf cx) \<longrightarrow>
      (\<exists>res cx' t.
         find_rd d key cx = Some (res, cx', (unat (checksum key) mod 256 * 8, 8) # t) \<and>
         (\<forall>hp hs cx0 t0.
            readNums_rd d ((checksum key AND 0xFF) * 8) cx = (Inr (hp, hs), cx0, t0) \<longrightarrow>
            hpos cx' = hp \<and> hslots cx' = hs)))"
  using hdr_word hdr_nat first_step_mmap [of ctx c key] first_step_rd [of cx d key]
  by blast

definition tiny :: "byte list" where
  "tiny = [0x05, 0x15, 0, 0, 16, 0, 0, 0] @ replicate 8 0 @ [0, 0, 0, 0, 2, 0, 0, 0] @
          [0xAA, 0xBB] @ replicate 14 0 @ [0, 0, 0, 0, 1, 0, 0, 0]"

theorem first_step_reads_header_entry_witness:
  "loop NewContext_mmap = 0 \<and> loop NewContext_rd = 0 \<and> 8 \<le> length (buf NewContext_rd) \<and>
   (\<exists>res ctx' t. find_mmap \<lparr>mmappedData = tiny\<rparr> [] NewContext_mmap = (res, ctx', (40, 8) # t) \<and>
      hpos ctx' = 0 \<and> hslots ctx' = 1) \<and>
   (\<exists>res cx' t. find_rd \<lparr>r = osFile tiny\<rparr> [] NewContext_rd = Some (res, cx', (40, 8) # t) \<and>
      hpos cx' = 0 \<and> hslots cx' = 1)"
proof -
  have a: "loop NewContext_mmap = 0" "loop NewContext_rd = 0" "8 \<le> length (buf NewContext_rd)"
    by (simp_all add: NewContext_mmap_def NewContext_rd_def)
  have b: "fst (readNums_mmap \<lparr>mmappedData = tiny\<rparr> ((checksum [] AND 0xFF) * 8)) = Inr (0, 1)"
    by code_simp
  have c: "readNums_rd \<lparr>r = osFile tiny\<rparr> ((checksum [] AND 0xFF) * 8) NewContext_rd =
             (Inr (0, 1), NewContext_rd\<lparr>buf := [0, 0, 0, 0, 1, 0, 0, 0] @ replicate 56 0\<rparr>,
              [(40, 8)])"
    by code_simp
  have d: "unat (checksum []) mod 256 * 8 = 40" by (simp add: checksum_def)
  show ?thesis
    using a b c d
      first_step_reads_header_entry [of NewContext_mmap "\<lparr>mmappedData = tiny\<rparr>" "[]"
        NewContext_rd "\<lparr>r = osFile tiny\<rparr>"]
    by fastforce
qed

section \<open>The probe loop: empty bucket and empty slot\<close>

text \<open>
  C7. When the header entry selected by the low 8 bits of the key's hash has
  \<open>numSlots = 0\<close>, the first step returns the not-found signal at once; the only access
  is the 8-byte read of the header entry.
\<close>

theorem empty_bucket_not_found:
  "(loop ctx = 0 \<and>
    fst (readNums_mmap c ((checksum key AND 0xFF) * 8)) = Inr (hp, 0) \<longrightarrow>
      find_mmap c key ctx =
        (Some EOF, ctx\<lparr>hpos := hp, hslots := 0\<rparr>, [(unat (checksum key) mod 256 * 8, 8)])) \<and>
   (loop cx = 0 \<and>
    readNums_rd d ((checksum key AND 0xFF) * 8) cx = (Inr (hp', 0), cx', t) \<longrightarrow>
      find_rd d key cx =
        Some (Some EOF, cx'\<lparr>hpos := hp', hslots := 0\<rparr>, [(unat (checksum key) mod 256 * 8, 8)]))"
proof -
  have off: "unat (push_bit 3 (checksum key) AND 2047 :: u32) = unat (checksum key) mod 256 * 8"
    by (rule hdr_nat)
  have "find_mmap c key ctx =
          (Some EOF, ctx\<lparr>hpos := hp, hslots := 0\<rparr>, [(unat (checksum key) mod 256 * 8, 8)])"
    if "loop ctx = 0" "fst (readNums_mmap c ((checksum key AND 0xFF) * 8)) = Inr (hp, 0)"
    using that(1) readNums_mmap_fst [OF that(2)] off
    by (simp add: find_mmap_def Let_def hdr_word)
  moreover have "find_rd d key cx =
          Some (Some EOF, cx'\<lparr>hpos := hp', hslots := 0\<rparr>, [(unat (checksum key) mod 256 * 8, 8)])"
    if "loop cx = 0" "readNums_rd d ((checksum key AND 0xFF) * 8) cx = (Inr (hp', 0), cx', t)"
    using that readNums_rd_Inr_trace [OF that(2)] off
    by (simp add: find_rd_def Let_def hdr_word)
  ultimately show ?thesis by blast
qed

definition empty_bucket_db :: "byte list" where
  "empty_bucket_db = replicate 48 0"

theorem empty_bucket_not_found_witness:
  "loop NewContext_mmap = 0 \<and>
   fst (readNums_mmap \<lparr>mmappedData = empty_bucket_db\<rparr> ((checksum [] AND 0xFF) * 8)) = Inr (0, 0) \<and>
   find_mmap \<lparr>mmappedData = empty_bucket_db\<rparr> [] NewContext_mmap =
     (Some EOF, NewContext_mmap, [(40, 8)]) \<and>
   loop NewContext_rd = 0 \<and>
   find_rd \<lparr>r = osFile empty_bucket_db\<rparr> [] NewContext_rd =
     Some (Some EOF, NewContext_rd, [(40, 8)])"
proof -
  have a: "loop NewContext_mmap = 0" "loop NewContext_rd = 0"
    by (simp_all add: NewContext_mmap_def NewContext_rd_def)
  have b: "fst (readNums_mmap \<lparr>mmappedData = empty_bucket_db\<rparr> ((checksum [] AND 0xFF) * 8))
             = Inr (0, 0)"
    by code_simp
  have c: "readNums_rd \<lparr>r = osFile empty_bucket_db\<rparr> ((checksum [] AND 0xFF) * 8) NewContext_rd
             = (Inr (0, 0), NewContext_rd, [(40, 8)])"
    by code_simp
  have d: "unat (checksum []) mod 256 * 8 = 40" by (simp add: checksum_def)
  have e: "NewContext_mmap\<lparr>hpos := 0, hslots := 0\<rparr> = NewContext_mmap"
    "NewContext_rd\<lparr>hpos := 0, hslots := 0\<rparr> = NewContext_rd"
    by (simp_all add: NewContext_mmap_def NewContext_rd_def)
  show ?thesis
    using a b c d e
      empty_bucket_not_found [of NewContext_mmap "\<lparr>mmappedData = empty_bucket_db\<rparr>" "[]" 0
        NewContext_rd "\<lparr>r = osFile empty_bucket_db\<rparr>" 0 NewContext_rd "[(40, 8)]"]
    by simp
qed

lemma empty_slot_mmap:
  assumes "loop ctx < hslots ctx" and "fst (readNums_mmap c (kpos ctx)) = Inr (h, 0)"
  shows "find_loop_mmap c key ctx tr = (Some EOF, ctx, tr @ [(unat (kpos ctx), 8)])"
  using assms(1) readNums_mmap_fst [OF assms(2)]
  by (simp add: find_loop_mmap_unfold [of c key ctx] probe_mmap_def)

lemma empty_slot_rd:
  assumes "loop ctx < hslots ctx" and "readNums_rd c (kpos ctx) ctx = (Inr (h, 0), ctx', t)"
  shows "find_loop_rd c key ctx tr = Some (Some EOF, ctx', tr @ [(unat (kpos ctx), 8)])"
  using assms readNums_rd_Inr_trace [OF assms(2)]
  by (simp add: find_loop_rd_unfold [of c key ctx] probe_rd_def)

text \<open>
  C4. Inside the probe loop, a slot whose \<open>recordPos\<close> is 0 ends the step with the
  not-found signal \<open>io.EOF\<close>: \<open>loop\<close> and \<open>kpos\<close> keep their values and the only
  access is the 8-byte read of the slot itself, so no record is read. In the
  positioned-read build the context changes in its scratch buffer only.
\<close>

theorem empty_slot_ends_probe:
  "(loop ctx < hslots ctx \<and> fst (readNums_mmap c (kpos ctx)) = Inr (h, 0) \<longrightarrow>
      find_loop_mmap c key ctx tr = (Some EOF, ctx, tr @ [(unat (kpos ctx), 8)]) \<and>
      (loop ctx \<noteq> 0 \<longrightarrow> find_mmap c key ctx = (Some EOF, ctx, [(unat (kpos ctx), 8)]))) \<and>
   (loop cx < hslots cx \<and> readNums_rd d (kpos cx) cx = (Inr (h', 0), cx', t) \<longrightarrow>
      find_loop_rd d key cx tr = Some (Some EOF, cx', tr @ [(unat (kpos cx), 8)]) \<and>
      (loop cx \<noteq> 0 \<longrightarrow> find_rd d key cx = Some (Some EOF, cx', [(unat (kpos cx), 8)])) \<and>
      Context.truncate cx' = Context.truncate cx)"
proof -
  have "find_mmap c key ctx = (Some EOF, ctx, [(unat (kpos ctx), 8)])"
    if "loop ctx < hslots ctx" "fst (readNums_mmap c (kpos ctx)) = Inr (h, 0)" "loop ctx \<noteq> 0"
    using that empty_slot_mmap [of ctx c h key "[]"] by (simp add: find_mmap_def)
  moreover have "find_rd d key cx = Some (Some EOF, cx', [(unat (kpos cx), 8)])"
    if "loop cx < hslots cx" "readNums_rd d (kpos cx) cx = (Inr (h', 0), cx', t)" "loop cx \<noteq> 0"
    using that empty_slot_rd [of cx d h' cx' t key "[]"] by (simp add: find_rd_def)
  ultimately show ?thesis
    using empty_slot_mmap [of ctx c h key tr] empty_slot_rd [of cx d h' cx' t key tr]
      readNums_rd_fields [of d "kpos cx" cx "Inr (h', 0)" cx' t]
    by blast
qed

definition empty_slot_db :: "byte list" where
  "empty_slot_db = [0x05, 0x15, 0, 0, 0, 0, 0, 0]"

definition probing :: Context where
  "probing = \<lparr>loop = 1, khash = 5381, kpos = 0, hpos = 0, hslots = 2, dpos = 0, dlen = 0\<rparr>"

definition probing_rd :: Context_rd where
  "probing_rd = \<lparr>loop = 1, khash = 5381, kpos = 0, hpos = 0, hslots = 2, dpos = 0, dlen = 0,
                 buf = replicate 64 0\<rparr>"

theorem empty_slot_ends_probe_witness:
  "loop probing < hslots probing \<and>
   fst (readNums_mmap \<lparr>mmappedData = empty_slot_db\<rparr> (kpos probing)) = Inr (5381, 0) \<and>
   loop probing \<noteq> 0 \<and>
   find_mmap \<lparr>mmappedData = empty_slot_db\<rparr> [] probing = (Some EOF, probing, [(0, 8)]) \<and>
   loop probing_rd < hslots probing_rd \<and> loop probing_rd \<noteq> 0 \<and>
   find_rd \<lparr>r = osFile empty_slot_db\<rparr> [] probing_rd =
     Some (Some EOF, probing_rd\<lparr>buf := empty_slot_db @ replicate 56 0\<rparr>, [(0, 8)])"
proof -
  have a: "loop probing < hslots probing" "loop probing \<noteq> 0"
    "loop probing_rd < hslots probing_rd" "loop probing_rd \<noteq> 0"
    by (simp_all add: probing_def probing_rd_def)
  have b: "fst (readNums_mmap \<lparr>mmappedData = empty_slot_db\<rparr> (kpos probing)) = Inr (5381, 0)"
    by code_simp
  have c: "readNums_rd \<lparr>r = osFile empty_slot_db\<rparr> (kpos probing_rd) probing_rd =
             (Inr (5381, 0), probing_rd\<lparr>buf := empty_slot_db @ replicate 56 0\<rparr>, [(0, 8)])"
    by code_simp
  have k: "unat (kpos probing) = 0" "unat (kpos probing_rd) = 0"
    by (simp_all add: probing_def probing_rd_def)
  show ?thesis
    using a b c k
      empty_slot_ends_probe [of probing "\<lparr>mmappedData = empty_slot_db\<rparr>" 5381 "[]" "[]"
        probing_rd "\<lparr>r = osFile empty_slot_db\<rparr>" 5381
        "probing_rd\<lparr>buf := empty_slot_db @ replicate 56 0\<rparr>" "[(0, 8)]"]
    by simp
qed


section \<open>A match, and resuming after it\<close>

lemma loop_plus1_nonzero: "(l :: u32) < n \<Longrightarrow> l + 1 \<noteq> 0"
proof
  assume "l < n" and "l + 1 = 0"
  with unat_plus1_less [of l n] show False by simp
qed

lemma match_found_mmap:
  assumes "loop ctx < hslots ctx"
    and "fst (readNums_mmap c (kpos ctx)) = Inr (khash ctx, pos)" and "pos \<noteq> 0"
    and "fst (readNums_mmap c pos) = Inr (of_nat (length key), rdlen)"
    and "fst (match_mmap c key (pos + 8)) = Inr True"
  shows "find_loop_mmap c key ctx tr =
           (None, (advance ctx)\<lparr>dlen := rdlen, dpos := pos + 8 + of_nat (length key)\<rparr>,
            tr @ [(unat (kpos ctx), 8), (unat pos, 8),
                  (unat (pos + 8), unat (of_nat (length key) :: u32))])"
  using assms(1,3) readNums_mmap_fst [OF assms(2)] readNums_mmap_fst [OF assms(4)]
    match_mmap_fst [OF assms(5)]
  by (simp add: find_loop_mmap_unfold [of c key ctx] probe_mmap_def)

lemma match_found_rd:
  assumes "loop cx < hslots cx"
    and "readNums_rd d (kpos cx) cx = (Inr (khash cx, pos), cx1, t1)" and "pos \<noteq> 0"
    and "readNums_rd d pos (advance cx1) = (Inr (of_nat (length key), rdlen), cx2, t2)"
    and "match_rd d key (pos + 8) cx2 = Some (Inr True, cx3, t3)"
  shows "find_loop_rd d key cx tr =
           Some (None, cx3\<lparr>dlen := rdlen, dpos := pos + 8 + of_nat (length key)\<rparr>,
                 tr @ [(unat (kpos cx), 8), (unat pos, 8)] @ t3) \<and>
         Context.truncate (cx3\<lparr>dlen := rdlen, dpos := pos + 8 + of_nat (length key)\<rparr>) =
           (advance (Context.truncate cx))\<lparr>dlen := rdlen, dpos := pos + 8 + of_nat (length key)\<rparr>"
proof -
  from readNums_rd_fields [OF assms(2)] have f1: "Context.truncate cx1 = Context.truncate cx"
    by simp
  then have k1: "khash cx1 = khash cx" using truncate_eqD [of cx1 cx] by simp
  from readNums_rd_fields [OF assms(4)]
  have f2: "Context.truncate cx2 = advance (Context.truncate cx)"
    by (simp add: truncate_advance f1)
  from match_rd_fields [OF assms(5)] f2
  have f3: "Context.truncate cx3 = advance (Context.truncate cx)" by simp
  have "find_loop_rd d key cx tr =
           Some (None, cx3\<lparr>dlen := rdlen, dpos := pos + 8 + of_nat (length key)\<rparr>,
                 tr @ [(unat (kpos cx), 8), (unat pos, 8)] @ t3)"
    using assms readNums_rd_Inr_trace [OF assms(2)] readNums_rd_Inr_trace [OF assms(4)] k1
    by (simp add: find_loop_rd_unfold [of d key cx] probe_rd_def)
  with f3 show ?thesis by simp
qed

text \<open>
  C3. A probe iteration that reads an occupied slot whose hash is the key's hash, whose
  record has the key's length and whose key bytes equal the key returns found (\<open>nil\<close>)
  with \<open>dpos = recordPos + 8 + keyLen\<close> and \<open>dlen\<close> the stored data length. The context
  it leaves has \<open>loop\<close> incremented (hence non-zero) and \<open>kpos\<close> moved to the next slot,
  wrapped to \<open>hpos\<close> at the end of the table, so the next step on this context goes
  straight into the probe loop and resumes from there.
\<close>

theorem match_returns_found:
  "(loop ctx < hslots ctx \<and>
    fst (readNums_mmap c (kpos ctx)) = Inr (khash ctx, pos) \<and> pos \<noteq> 0 \<and>
    fst (readNums_mmap c pos) = Inr (of_nat (length key), rdlen) \<and>
    fst (match_mmap c key (pos + 8)) = Inr True \<longrightarrow>
      (let ctx' = (advance ctx)\<lparr>dlen := rdlen, dpos := pos + 8 + of_nat (length key)\<rparr> in
         find_loop_mmap c key ctx tr =
           (None, ctx', tr @ [(unat (kpos ctx), 8), (unat pos, 8),
                              (unat (pos + 8), unat (of_nat (length key) :: u32))]) \<and>
         (loop ctx \<noteq> 0 \<longrightarrow> fst (find_mmap c key ctx) = None \<and> fst (snd (find_mmap c key ctx)) = ctx') \<and>
         dpos ctx' = pos + 8 + of_nat (length key) \<and> dlen ctx' = rdlen \<and>
         loop ctx' = loop ctx + 1 \<and> loop ctx' \<noteq> 0 \<and>
         kpos ctx' = (if kpos ctx + 8 = hpos ctx + push_bit 3 (hslots ctx)
                      then hpos ctx else kpos ctx + 8) \<and>
         find_mmap c key ctx' = find_loop_mmap c key ctx' [])) \<and>
   (loop cx < hslots cx \<and>
    readNums_rd d (kpos cx) cx = (Inr (khash cx, pos'), cx1, t1) \<and> pos' \<noteq> 0 \<and>
    readNums_rd d pos' (advance cx1) = (Inr (of_nat (length key), rdlen'), cx2, t2) \<and>
    match_rd d key (pos' + 8) cx2 = Some (Inr True, cx3, t3) \<longrightarrow>
      (let cx' = cx3\<lparr>dlen := rdlen', dpos := pos' + 8 + of_nat (length key)\<rparr> in
         find_loop_rd d key cx tr' =
           Some (None, cx', tr' @ [(unat (kpos cx), 8), (unat pos', 8)] @ t3) \<and>
         (loop cx \<noteq> 0 \<longrightarrow> map_option (\<lambda>(e, x, t). (e, x)) (find_rd d key cx) = Some (None, cx')) \<and>
         dpos cx' = pos' + 8 + of_nat (length key) \<and> dlen cx' = rdlen' \<and>
         loop cx' = loop cx + 1 \<and> loop cx' \<noteq> 0 \<and>
         kpos cx' = (if kpos cx + 8 = hpos cx + push_bit 3 (hslots cx)
                     then hpos cx else kpos cx + 8) \<and>
         find_rd d key cx' = find_loop_rd d key cx' []))"
proof -
  have mm: "let ctx' = (advance ctx)\<lparr>dlen := rdlen, dpos := pos + 8 + of_nat (length key)\<rparr> in
         find_loop_mmap c key ctx tr =
           (None, ctx', tr @ [(unat (kpos ctx), 8), (unat pos, 8),
                              (unat (pos + 8), unat (of_nat (length key) :: u32))]) \<and>
         (loop ctx \<noteq> 0 \<longrightarrow> fst (find_mmap c key ctx) = None \<and> fst (snd (find_mmap c key ctx)) = ctx') \<and>
         dpos ctx' = pos + 8 + of_nat (length key) \<and> dlen ctx' = rdlen \<and>
         loop ctx' = loop ctx + 1 \<and> loop ctx' \<noteq> 0 \<and>
         kpos ctx' = (if kpos ctx + 8 = hpos ctx + push_bit 3 (hslots ctx)
                      then hpos ctx else kpos ctx + 8) \<and>
         find_mmap c key ctx' = find_loop_mmap c key ctx' []"
    if h: "loop ctx < hslots ctx" "fst (readNums_mmap c (kpos ctx)) = Inr (khash ctx, pos)"
      "pos \<noteq> 0" "fst (readNums_mmap c pos) = Inr (of_nat (length key), rdlen)"
      "fst (match_mmap c key (pos + 8)) = Inr True"
    using match_found_mmap [OF h, of tr] match_found_mmap [OF h, of "[]"]
      loop_plus1_nonzero [OF h(1)]
    by (simp add: Let_def find_mmap_def advance_kpos)
  have rd: "let cx' = cx3\<lparr>dlen := rdlen', dpos := pos' + 8 + of_nat (length key)\<rparr> in
         find_loop_rd d key cx tr' =
           Some (None, cx', tr' @ [(unat (kpos cx), 8), (unat pos', 8)] @ t3) \<and>
         (loop cx \<noteq> 0 \<longrightarrow> map_option (\<lambda>(e, x, t). (e, x)) (find_rd d key cx) = Some (None, cx')) \<and>
         dpos cx' = pos' + 8 + of_nat (length key) \<and> dlen cx' = rdlen' \<and>
         loop cx' = loop cx + 1 \<and> loop cx' \<noteq> 0 \<and>
         kpos cx' = (if kpos cx + 8 = hpos cx + push_bit 3 (hslots cx)
                     then hpos cx else kpos cx + 8) \<and>
         find_rd d key cx' = find_loop_rd d key cx' []"
    if h: "loop cx < hslots cx" "readNums_rd d (kpos cx) cx = (Inr (khash cx, pos'), cx1, t1)"
      "pos' \<noteq> 0" "readNums_rd d pos' (advance cx1) = (Inr (of_nat (length key), rdlen'), cx2, t2)"
      "match_rd d key (pos' + 8) cx2 = Some (Inr True, cx3, t3)"
  proof -
    define cx' where "cx' = cx3\<lparr>dlen := rdlen', dpos := pos' + 8 + of_nat (length key)\<rparr>"
    from match_found_rd [OF h, of tr'] have
      fl: "find_loop_rd d key cx tr' =
             Some (None, cx', tr' @ [(unat (kpos cx), 8), (unat pos', 8)] @ t3)"
      and tr: "Context.truncate cx' =
             (advance (Context.truncate cx))\<lparr>dlen := rdlen', dpos := pos' + 8 + of_nat (length key)\<rparr>"
      by (simp_all add: cx'_def)
    from truncate_eqD [of cx' "(advance cx)\<lparr>dlen := rdlen', dpos := pos' + 8 + of_nat (length key)\<rparr>"] tr
    have f: "loop cx' = loop cx + 1" "kpos cx' = kpos (advance cx)"
      by (simp_all add: truncate_advance)
    from f(1) loop_plus1_nonzero [OF h(1)] have nz: "loop cx' \<noteq> 0" by simp
    from match_found_rd [OF h, of "[]"] have
      "loop cx \<noteq> 0 \<longrightarrow> map_option (\<lambda>(e, x, t). (e, x)) (find_rd d key cx) = Some (None, cx')"
      by (simp add: find_rd_def cx'_def)
    with fl f nz show ?thesis
      unfolding Let_def cx'_def [symmetric]
      by (simp add: advance_kpos find_rd_def) (simp add: cx'_def)
  qed
  from mm rd show ?thesis by blast
qed

definition found_db :: "byte list" where
  "found_db = [0xC4, 0xB5, 0x02, 0, 16, 0, 0, 0] @ replicate 8 0 @
              [1, 0, 0, 0, 2, 0, 0, 0] @ [0x61] @ [0xAA, 0xBB]"

definition resumed :: Context where
  "resumed = \<lparr>loop = 1, khash = 177604, kpos = 0, hpos = 0, hslots = 2, dpos = 0, dlen = 0\<rparr>"

definition resumed_rd :: Context_rd where
  "resumed_rd = \<lparr>loop = 1, khash = 177604, kpos = 0, hpos = 0, hslots = 2, dpos = 0, dlen = 0,
                 buf = replicate 64 0\<rparr>"

theorem match_returns_found_witness:
  "loop resumed < hslots resumed \<and> loop resumed \<noteq> 0 \<and>
   fst (readNums_mmap \<lparr>mmappedData = found_db\<rparr> (kpos resumed)) = Inr (khash resumed, 16) \<and>
   fst (readNums_mmap \<lparr>mmappedData = found_db\<rparr> 16) = Inr (of_nat (length [0x61 :: byte]), 2) \<and>
   fst (match_mmap \<lparr>mmappedData = found_db\<rparr> [0x61] (16 + 8)) = Inr True \<and>
   fst (find_mmap \<lparr>mmappedData = found_db\<rparr> [0x61] resumed) = None \<and>
   fst (snd (find_mmap \<lparr>mmappedData = found_db\<rparr> [0x61] resumed)) =
     \<lparr>loop = 2, khash = 177604, kpos = 8, hpos = 0, hslots = 2, dpos = 25, dlen = 2\<rparr> \<and>
   loop resumed_rd < hslots resumed_rd \<and> loop resumed_rd \<noteq> 0 \<and>
   map_option (\<lambda>(e, x, t). (e, x)) (find_rd \<lparr>r = osFile found_db\<rparr> [0x61] resumed_rd) =
     Some (None, \<lparr>loop = 2, khash = 177604, kpos = 8, hpos = 0, hslots = 2, dpos = 25, dlen = 2,
                  buf = [0x61, 0, 0, 0, 2, 0, 0, 0] @ replicate 56 0\<rparr>)"
proof -
  let ?c = "\<lparr>mmappedData = found_db\<rparr>" and ?d = "\<lparr>r = osFile found_db\<rparr>"
  let ?k = "[0x61 :: byte]"
  let ?cx1 = "resumed_rd\<lparr>buf := [0xC4, 0xB5, 0x02, 0, 16, 0, 0, 0] @ replicate 56 0\<rparr>"
  let ?cx2 = "(advance resumed_rd)\<lparr>buf := [1, 0, 0, 0, 2, 0, 0, 0] @ replicate 56 0\<rparr>"
  let ?cx3 = "(advance resumed_rd)\<lparr>buf := [0x61, 0, 0, 0, 2, 0, 0, 0] @ replicate 56 0\<rparr>"
  have a: "loop resumed < hslots resumed" "loop resumed \<noteq> 0"
    "loop resumed_rd < hslots resumed_rd" "loop resumed_rd \<noteq> 0" "(16 :: u32) \<noteq> 0"
    by (simp_all add: resumed_def resumed_rd_def)
  have m1: "fst (readNums_mmap ?c (kpos resumed)) = Inr (khash resumed, 16)" by code_simp
  have m2: "fst (readNums_mmap ?c 16) = Inr (of_nat (length ?k), 2)" by code_simp
  have m3: "fst (match_mmap ?c ?k (16 + 8)) = Inr True" by code_simp
  have r1: "readNums_rd ?d (kpos resumed_rd) resumed_rd = (Inr (khash resumed_rd, 16), ?cx1, [(0, 8)])"
    by code_simp
  have r2: "readNums_rd ?d 16 (advance ?cx1) = (Inr (of_nat (length ?k), 2), ?cx2, [(16, 8)])"
    by code_simp
  have r3: "match_rd ?d ?k (16 + 8) ?cx2 = Some (Inr True, ?cx3, [(24, 1)])"
    by code_simp
  have e1: "(advance resumed)\<lparr>dlen := 2, dpos := 16 + 8 + of_nat (length ?k)\<rparr> =
     \<lparr>loop = 2, khash = 177604, kpos = 8, hpos = 0, hslots = 2, dpos = 25, dlen = 2\<rparr>"
    by code_simp
  have e2: "?cx3\<lparr>dlen := 2, dpos := 16 + 8 + of_nat (length ?k)\<rparr> =
     \<lparr>loop = 2, khash = 177604, kpos = 8, hpos = 0, hslots = 2, dpos = 25, dlen = 2,
      buf = [0x61, 0, 0, 0, 2, 0, 0, 0] @ replicate 56 0\<rparr>"
    by code_simp
  from match_returns_found [of resumed ?c 16 ?k 2 "[]" resumed_rd ?d 16 ?cx1 "[(0, 8)]" 2
      ?cx2 "[(16, 8)]" ?cx3 "[(24, 1)]" "[]"] a m1 m2 m3 r1 r2 r3
  have "fst (find_mmap ?c ?k resumed) = None \<and>
        fst (snd (find_mmap ?c ?k resumed)) =
          (advance resumed)\<lparr>dlen := 2, dpos := 16 + 8 + of_nat (length ?k)\<rparr> \<and>
        map_option (\<lambda>(e, x, t). (e, x)) (find_rd ?d ?k resumed_rd) =
          Some (None, ?cx3\<lparr>dlen := 2, dpos := 16 + 8 + of_nat (length ?k)\<rparr>)"
    unfolding Let_def by blast
  with a m1 m2 m3 show ?thesis unfolding e1 e2 by blast
qed

section \<open>FindNext on a fresh context\<close>

lemma FindStart_fresh: "loop ctx = 0 \<Longrightarrow> FindStart ctx = ctx"
  by (simp add: FindStart_def)

lemma readNums_rd_stale:
  "readNums_rd d pos (cx\<lparr>khash := a, kpos := b, hpos := e, hslots := f\<rparr>) =
     (case readNums_rd d pos cx of
        (x, cx0, t) \<Rightarrow> (x, cx0\<lparr>khash := a, kpos := b, hpos := e, hslots := f\<rparr>, t))"
  by (simp add: readNums_rd_def Let_def split: prod.splits option.splits)

lemma find_rd_stale:
  assumes "loop cx = 0"
  shows "map_option (\<lambda>(e, x, t). (e, t))
           (find_rd d key (cx\<lparr>khash := a, kpos := b, hpos := e, hslots := f\<rparr>)) =
         map_option (\<lambda>(e, x, t). (e, t)) (find_rd d key cx)"
  using assms
  by (simp add: find_rd_def Let_def readNums_rd_stale split: prod.splits sum.splits)

text \<open>
  C10. On a context with \<open>loop = 0\<close>, in particular one fresh from \<open>NewContext\<close>,
  \<open>FindNext\<close> gives exactly what \<open>Find\<close> gives: \<open>FindStart\<close> changes nothing there.
  The step starts from scratch: its result and its accesses do not depend on the values
  of \<open>khash\<close>, \<open>kpos\<close>, \<open>hpos\<close> and \<open>hslots\<close> the context held before.
\<close>

theorem FindNext_fresh_is_Find:
  "(loop cx = 0 \<longrightarrow>
      FindNext_rd d key cx = Find_rd d key cx \<and>
      map_option (\<lambda>(e, x, t). (e, t))
        (find_rd d key (cx\<lparr>khash := a, kpos := b, hpos := e, hslots := f\<rparr>)) =
      map_option (\<lambda>(e, x, t). (e, t)) (find_rd d key cx)) \<and>
   FindNext_rd d key NewContext_rd = Find_rd d key NewContext_rd \<and>
   (loop ctx = 0 \<longrightarrow> FindNext_mmap c key ctx = Find_mmap c key ctx) \<and>
   FindNext_mmap c key NewContext_mmap = Find_mmap c key NewContext_mmap"
proof -
  have "loop NewContext_rd = 0" "loop NewContext_mmap = 0"
    by (simp_all add: NewContext_rd_def NewContext_mmap_def)
  then show ?thesis
    using find_rd_stale [where cx = cx and d = d and key = key and a = a and b = b and e = e
        and f = f]
    by (simp add: Find_rd_def Find_mmap_def FindStart_fresh)
qed

theorem FindNext_fresh_is_Find_witness:
  "loop NewContext_rd = 0 \<and> loop NewContext_mmap = 0 \<and>
   FindNext_rd \<lparr>r = osFile tiny\<rparr> [] NewContext_rd = Find_rd \<lparr>r = osFile tiny\<rparr> [] NewContext_rd \<and>
   map_option fst (Find_rd \<lparr>r = osFile tiny\<rparr> [] NewContext_rd) =
     Some (Returned (Some (24, 2)) None) \<and>
   FindNext_mmap \<lparr>mmappedData = tiny\<rparr> [] NewContext_mmap =
     Find_mmap \<lparr>mmappedData = tiny\<rparr> [] NewContext_mmap \<and>
   fst (Find_mmap \<lparr>mmappedData = tiny\<rparr> [] NewContext_mmap) = Returned (Some [0xAA, 0xBB]) None"
proof -
  have z: "loop NewContext_rd = 0" "loop NewContext_mmap = 0"
    by (simp_all add: NewContext_rd_def NewContext_mmap_def)
  have v: "map_option fst (FindNext_rd \<lparr>r = osFile tiny\<rparr> [] NewContext_rd) =
             Some (Returned (Some (24, 2)) None)"
    by code_simp
  have w: "fst (FindNext_mmap \<lparr>mmappedData = tiny\<rparr> [] NewContext_mmap) =
             Returned (Some [0xAA, 0xBB]) None"
    by code_simp
  from FindNext_fresh_is_Find [of NewContext_rd "\<lparr>r = osFile tiny\<rparr>" "[]" 0 0 0 0
      NewContext_mmap "\<lparr>mmappedData = tiny\<rparr>"] z v w
  show ?thesis by simp
qed

section \<open>Termination and the bound on the probe\<close>

lemma probe_mmap_accesses: "probe_mmap c key ctx = (x, t) \<Longrightarrow> length t \<le> 3"
proof -
  assume a: "probe_mmap c key ctx = (x, t)"
  have l1: "length (snd (readNums_mmap c p)) = 1" for p by (simp add: readNums_mmap_trace)
  have l2: "length (snd (match_mmap c key p)) = 1" for p by (simp add: match_mmap_trace)
  have r: "readNums_mmap c p = (y, u) \<Longrightarrow> length u = 1" for p y u using l1 [of p] by simp
  have m: "match_mmap c key p = (y, u) \<Longrightarrow> length u = 1" for p y u using l2 [of p] by simp
  from a show ?thesis
    by (auto simp: probe_mmap_def split: prod.splits sum.splits bool.splits if_splits
             dest!: r m)
qed

lemma find_loop_mmap_accesses:
  "find_loop_mmap c key ctx tr = (res, ctx', tr') \<Longrightarrow>
     length tr' \<le> length tr + 3 * (unat (hslots ctx) - unat (loop ctx))"
proof (induction ctx tr rule: find_loop_mmap_induct2 [where c = c and key = key])
  case (step ctx tr)
  show ?case
  proof (cases "loop ctx < hslots ctx")
    case False
    with step.prems show ?thesis by (simp add: find_loop_mmap_unfold [of c key ctx])
  next
    case True
    then have m: "unat (hslots ctx) - unat (loop ctx) = Suc (unat (hslots ctx) - unat (loop ctx + 1))"
      using unat_plus1_less [OF True] by (simp add: word_less_nat_alt)
    obtain x t where p: "probe_mmap c key ctx = (x, t)" by (cases "probe_mmap c key ctx")
    note len = probe_mmap_accesses [OF p]
    show ?thesis
    proof (cases x)
      case (Inl a)
      obtain e cx where a: "a = (e, cx)" by (cases a)
      from step.prems True p Inl a have "tr' = tr @ t"
        by (simp_all add: find_loop_mmap_unfold [of c key ctx])
      with len m show ?thesis by simp
    next
      case (Inr cx)
      with probe_mmap_Inr p have cx: "cx = advance ctx" by blast
      from step.prems True p Inr cx
      have "find_loop_mmap c key (advance ctx) (tr @ t) = (res, ctx', tr')"
        by (simp add: find_loop_mmap_unfold [of c key ctx])
      from step.IH [OF True _ this] p Inr cx len m show ?thesis by simp
    qed
  qed
qed

lemma find_mmap_loop_bound:
  assumes "find_mmap c key ctx = (res, ctx', tr')" and "loop ctx = 0 \<or> loop ctx \<le> hslots ctx"
  shows "loop ctx' \<le> hslots ctx'"
proof (cases "loop ctx = 0")
  case False
  with assms have fl: "find_loop_mmap c key ctx [] = (res, ctx', tr')" and le: "loop ctx \<le> hslots ctx"
    by (simp_all add: find_mmap_def)
  from find_loop_mmap_inv [OF fl] le show ?thesis by simp
next
  case True
  show ?thesis
  proof (cases rule: readNums_mmap_cases [of c "push_bit 3 (checksum key) AND 2047"])
    case (1 e)
    with assms(1) True show ?thesis by (auto simp: find_mmap_def Let_def)
  next
    case (2 hp hs)
    show ?thesis
    proof (cases "hs = 0")
      case True
      with 2 assms(1) \<open>loop ctx = 0\<close> show ?thesis by (auto simp: find_mmap_def Let_def)
    next
      case False
      with 2 assms(1) \<open>loop ctx = 0\<close>
      have "find_loop_mmap c key (ctx\<lparr>hpos := hp, hslots := hs, khash := checksum key,
              kpos := hp + push_bit 3 (drop_bit 8 (checksum key) mod hs)\<rparr>)
              [(unat (push_bit 3 (checksum key) AND 2047 :: u32), 8)] = (res, ctx', tr')"
        by (simp add: find_mmap_def Let_def)
      from find_loop_mmap_inv [OF this] \<open>loop ctx = 0\<close> show ?thesis by simp
    qed
  qed
qed

lemma find_rd_loop_bound:
  assumes "find_rd d key cx = Some (res, cx', tr')" and "loop cx = 0 \<or> loop cx \<le> hslots cx"
  shows "loop cx' \<le> hslots cx'"
proof (cases "loop cx = 0")
  case False
  with assms have fl: "find_loop_rd d key cx [] = Some (res, cx', tr')" and le: "loop cx \<le> hslots cx"
    by (simp_all add: find_rd_def)
  from find_loop_rd_inv [OF fl] le show ?thesis by simp
next
  case True
  obtain x cx0 t0 where rn: "readNums_rd d (push_bit 3 (checksum key) AND 2047) cx = (x, cx0, t0)"
    by (cases "readNums_rd d (push_bit 3 (checksum key) AND 2047) cx")
  from readNums_rd_fields [OF rn] truncate_eqD [of cx0 cx] True have l0: "loop cx0 = 0" by simp
  show ?thesis
  proof (cases x)
    case (Inl e)
    with rn assms(1) True l0 show ?thesis by (auto simp: find_rd_def Let_def)
  next
    case (Inr v)
    obtain hp hs where v: "v = (hp, hs)" by (cases v)
    show ?thesis
    proof (cases "hs = 0")
      case True
      with rn Inr v assms(1) \<open>loop cx = 0\<close> l0 show ?thesis by (auto simp: find_rd_def Let_def)
    next
      case False
      with rn Inr v assms(1) \<open>loop cx = 0\<close>
      have "find_loop_rd d key (cx0\<lparr>hpos := hp, hslots := hs, khash := checksum key,
              kpos := hp + push_bit 3 (drop_bit 8 (checksum key) mod hs)\<rparr>) t0
            = Some (res, cx', tr')"
        by (simp add: find_rd_def Let_def)
      from find_loop_rd_inv [OF this] l0 show ?thesis by simp
    qed
  qed
qed

lemma FindNext_rd_total: "FindNext_rd d key cx \<noteq> None"
  using find_rd_total [of d key cx]
  by (auto simp: FindNext_rd_def split: option.splits prod.splits)

lemma Data_rd_total: "Data_rd d key cx \<noteq> None"
  using find_rd_total [of d key "FindStart cx"]
  by (auto simp: Data_rd_def split: option.splits prod.splits)

text \<open>
  C6. Every step terminates. In the memory-mapped build \<open>find\<close> is a total function:
  its loop is defined by recursion on \<open>hslots - loop\<close>. In the positioned-read build
  \<open>find\<close>, \<open>FindNext\<close>, \<open>Find\<close> and \<open>Data\<close> always return. An iteration that does
  not return adds exactly one to \<open>loop\<close> and leaves \<open>hslots\<close> alone; \<open>loop\<close> never
  decreases and never passes \<open>hslots\<close>, so no more than \<open>hslots\<close> slots are counted for
  a key over all its steps, and one step of the memory-mapped build makes at most three
  accesses for each slot still uncounted. When the loop condition fails the step returns
  the not-found signal without any access.
\<close>

theorem find_terminates_within_hslots:
  "(\<exists>out. find_rd d key cx = Some out) \<and>
   (\<exists>out. FindNext_rd d key cx = Some out) \<and>
   (\<exists>out. Find_rd d key cx = Some out) \<and>
   (\<exists>out. Data_rd d key cx = Some out) \<and>
   (loop ctx < hslots ctx \<and> probe_mmap c key ctx = (Inr ctxn, t) \<longrightarrow>
      unat (loop ctxn) = unat (loop ctx) + 1 \<and> hslots ctxn = hslots ctx \<and>
      find_loop_mmap c key ctx tr = find_loop_mmap c key ctxn (tr @ t)) \<and>
   (loop cx < hslots cx \<and> probe_rd d key cx = Some (Inr cxn, t') \<longrightarrow>
      unat (loop cxn) = unat (loop cx) + 1 \<and> hslots cxn = hslots cx \<and>
      find_loop_rd d key cx tr = find_loop_rd d key cxn (tr @ t')) \<and>
   (find_loop_mmap c key ctx tr = (res, ctx', tr') \<longrightarrow>
      loop ctx \<le> loop ctx' \<and> (loop ctx \<le> hslots ctx \<longrightarrow> loop ctx' \<le> hslots ctx) \<and>
      length tr' \<le> length tr + 3 * (unat (hslots ctx) - unat (loop ctx))) \<and>
   (find_loop_rd d key cx tr = Some (resr, cx', trr) \<longrightarrow>
      loop cx \<le> loop cx' \<and> (loop cx \<le> hslots cx \<longrightarrow> loop cx' \<le> hslots cx)) \<and>
   (find_mmap c key ctx = (res, ctx', tr') \<and> (loop ctx = 0 \<or> loop ctx \<le> hslots ctx) \<longrightarrow>
      loop ctx' \<le> hslots ctx') \<and>
   (find_rd d key cx = Some (resr, cx', trr) \<and> (loop cx = 0 \<or> loop cx \<le> hslots cx) \<longrightarrow>
      loop cx' \<le> hslots cx') \<and>
   (\<not> loop ctxe < hslots ctxe \<longrightarrow>
      find_loop_mmap c key ctxe tr = (Some EOF, ctxe, tr) \<and>
      (loop ctxe \<noteq> 0 \<longrightarrow> find_mmap c key ctxe = (Some EOF, ctxe, []))) \<and>
   (\<not> loop cxe < hslots cxe \<longrightarrow>
      find_loop_rd d key cxe tr = Some (Some EOF, cxe, tr) \<and>
      (loop cxe \<noteq> 0 \<longrightarrow> find_rd d key cxe = Some (Some EOF, cxe, [])))"
proof -
  have t1: "\<exists>out. find_rd d key cx = Some out" using find_rd_total [of d key cx] by blast
  have t2: "\<exists>out. FindNext_rd d key cx = Some out" using FindNext_rd_total [of d key cx] by blast
  have t3: "\<exists>out. Find_rd d key cx = Some out"
    using FindNext_rd_total [of d key "FindStart cx"] unfolding Find_rd_def by blast
  have t4: "\<exists>out. Data_rd d key cx = Some out" using Data_rd_total [of d key cx] by blast
  have i1: "unat (loop ctxn) = unat (loop ctx) + 1 \<and> hslots ctxn = hslots ctx \<and>
      find_loop_mmap c key ctx tr = find_loop_mmap c key ctxn (tr @ t)"
    if "loop ctx < hslots ctx" "probe_mmap c key ctx = (Inr ctxn, t)"
    using that probe_mmap_Inr [OF that(2)] unat_plus1_less [OF that(1)]
    by (simp add: find_loop_mmap_unfold [of c key ctx])
  have i2: "unat (loop cxn) = unat (loop cx) + 1 \<and> hslots cxn = hslots cx \<and>
      find_loop_rd d key cx tr = find_loop_rd d key cxn (tr @ t')"
    if "loop cx < hslots cx" "probe_rd d key cx = Some (Inr cxn, t')"
  proof -
    from probe_rd_Inr [OF that(2)] truncate_eqD [of cxn "advance cx"]
    have "loop cxn = loop cx + 1" "hslots cxn = hslots cx" by (simp_all add: truncate_advance)
    with that unat_plus1_less [OF that(1)] show ?thesis
      by (simp add: find_loop_rd_unfold [of d key cx])
  qed
  have b1: "loop ctx \<le> loop ctx' \<and> (loop ctx \<le> hslots ctx \<longrightarrow> loop ctx' \<le> hslots ctx) \<and>
      length tr' \<le> length tr + 3 * (unat (hslots ctx) - unat (loop ctx))"
    if "find_loop_mmap c key ctx tr = (res, ctx', tr')"
    using find_loop_mmap_inv [OF that] find_loop_mmap_accesses [OF that] by simp
  have b2: "loop cx \<le> loop cx' \<and> (loop cx \<le> hslots cx \<longrightarrow> loop cx' \<le> hslots cx)"
    if "find_loop_rd d key cx tr = Some (resr, cx', trr)"
    using find_loop_rd_inv [OF that] by simp
  have e1: "find_loop_mmap c key ctxe tr = (Some EOF, ctxe, tr) \<and>
      (loop ctxe \<noteq> 0 \<longrightarrow> find_mmap c key ctxe = (Some EOF, ctxe, []))"
    if "\<not> loop ctxe < hslots ctxe"
    using that by (simp add: find_mmap_def find_loop_mmap_unfold [of c key ctxe])
  have e2: "find_loop_rd d key cxe tr = Some (Some EOF, cxe, tr) \<and>
      (loop cxe \<noteq> 0 \<longrightarrow> find_rd d key cxe = Some (Some EOF, cxe, []))"
    if "\<not> loop cxe < hslots cxe"
    using that by (simp add: find_rd_def find_loop_rd_unfold [of d key cxe])
  from t1 t2 t3 t4 i1 i2 b1 b2 e1 e2
    find_mmap_loop_bound [of c key ctx res ctx' tr'] find_rd_loop_bound [of d key cx resr cx' trr]
  show ?thesis by blast
qed


definition skipping :: Context where
  "skipping = \<lparr>loop = 1, khash = 1, kpos = 0, hpos = 0, hslots = 2, dpos = 0, dlen = 0\<rparr>"

definition skipping_rd :: Context_rd where
  "skipping_rd = \<lparr>loop = 1, khash = 1, kpos = 0, hpos = 0, hslots = 2, dpos = 0, dlen = 0,
                  buf = replicate 64 0\<rparr>"

theorem find_terminates_within_hslots_witness:
  "loop skipping < hslots skipping \<and>
   probe_mmap \<lparr>mmappedData = found_db\<rparr> [0x61] skipping = (Inr (advance skipping), [(0, 8)]) \<and>
   find_mmap \<lparr>mmappedData = found_db\<rparr> [0x61] skipping = (Some EOF, advance skipping, [(0, 8)]) \<and>
   unat (loop (advance skipping)) = unat (loop skipping) + 1 \<and>
   loop (advance skipping) \<le> hslots (advance skipping) \<and>
   \<not> loop (advance skipping) < hslots (advance skipping) \<and>
   loop (advance skipping) \<noteq> 0 \<and>
   find_mmap \<lparr>mmappedData = found_db\<rparr> [0x61] (advance skipping) =
     (Some EOF, advance skipping, []) \<and>
   loop skipping_rd < hslots skipping_rd \<and>
   (\<exists>cx'. find_rd \<lparr>r = osFile found_db\<rparr> [0x61] skipping_rd = Some (Some EOF, cx', [(0, 8)]) \<and>
          loop cx' \<le> hslots cx' \<and> \<not> loop cx' < hslots cx' \<and> loop cx' \<noteq> 0 \<and>
          find_rd \<lparr>r = osFile found_db\<rparr> [0x61] cx' = Some (Some EOF, cx', []))"
proof -
  let ?c = "\<lparr>mmappedData = found_db\<rparr>" and ?d = "\<lparr>r = osFile found_db\<rparr>"
  let ?k = "[0x61 :: byte]"
  let ?cx' = "(advance skipping_rd)\<lparr>buf := [0xC4, 0xB5, 0x02, 0, 16, 0, 0, 0] @ replicate 56 0\<rparr>"
  have h1: "loop skipping < hslots skipping" "loop skipping_rd < hslots skipping_rd"
    by (simp_all add: skipping_def skipping_rd_def)
  have h2: "probe_mmap ?c ?k skipping = (Inr (advance skipping), [(0, 8)])" by code_simp
  have h3: "find_mmap ?c ?k skipping = (Some EOF, advance skipping, [(0, 8)])" by code_simp
  have h4: "loop skipping \<le> hslots skipping" "loop skipping_rd \<le> hslots skipping_rd"
    by (simp_all add: skipping_def skipping_rd_def)
  have h5: "\<not> loop (advance skipping) < hslots (advance skipping)"
    "loop (advance skipping) \<noteq> 0" "\<not> loop ?cx' < hslots ?cx'" "loop ?cx' \<noteq> 0"
    by (simp_all add: skipping_def skipping_rd_def)
  have h6: "find_rd ?d ?k skipping_rd = Some (Some EOF, ?cx', [(0, 8)])" by code_simp
  from find_terminates_within_hslots [where d = ?d and key = ?k and cx = skipping_rd
      and c = ?c and ctx = skipping and ctxn = "advance skipping" and t = "[(0, 8)]"
      and res = "Some EOF" and ctx' = "advance skipping" and tr' = "[(0, 8)]"
      and resr = "Some EOF" and cx' = ?cx' and trr = "[(0, 8)]"
      and ctxe = "advance skipping" and cxe = ?cx' and tr = "[]"]
    h1 h2 h3 h4 h5 h6
  have "unat (loop (advance skipping)) = unat (loop skipping) + 1 \<and>
        loop (advance skipping) \<le> hslots (advance skipping) \<and>
        find_mmap ?c ?k (advance skipping) = (Some EOF, advance skipping, []) \<and>
        loop ?cx' \<le> hslots ?cx' \<and>
        find_rd ?d ?k ?cx' = Some (Some EOF, ?cx', [])"
    by blast
  with h1 h2 h3 h5 h6 show ?thesis by blast
qed

section \<open>The two builds on the same file\<close>

lemma unat_add_no_wrap:
  "unat (x :: u32) \<le> unat (x + y) \<Longrightarrow> unat (x + y) = unat x + unat y"
  using unat_plus_simple [of x y] by (simp add: word_le_nat_alt)

lemma slice_Inr:
  "slice d lo hi = Inr s \<Longrightarrow> lo \<le> hi \<and> hi \<le> length d \<and> s = take (hi - lo) (drop lo d)"
  by (auto simp: slice_def split: if_splits)

lemma slice_Inl: "slice d lo hi = Inl e \<Longrightarrow> e = RuntimeError"
  by (auto simp: slice_def split: if_splits)

lemma readNums_mmap_Inl: "readNums_mmap c pos = (Inl e, t) \<Longrightarrow> e = RuntimeError"
  by (auto simp: readNums_mmap_def split: sum.splits dest: slice_Inl)

lemma match_mmap_Inl: "match_mmap c key pos = (Inl e, t) \<Longrightarrow> e = RuntimeError"
  by (auto simp: match_mmap_def Let_def split: sum.splits dest: slice_Inl)

lemma readNums_mmap_Inr:
  assumes "readNums_mmap c pos = (Inr v, t)"
  shows "unat pos + 8 \<le> length (mmappedData c) \<and>
         v = (Uint32 (take 8 (drop (unat pos) (mmappedData c))),
              Uint32 (drop 4 (take 8 (drop (unat pos) (mmappedData c)))))"
proof -
  from assms obtain s where s: "slice (mmappedData c) (unat pos) (unat (pos + 8)) = Inr s"
    and v: "v = (Uint32 s, Uint32 (drop 4 s))"
    by (auto simp: readNums_mmap_def split: sum.splits)
  from slice_Inr [OF s] have le: "unat pos \<le> unat (pos + 8)"
    and hi: "unat (pos + 8) \<le> length (mmappedData c)"
    and sv: "s = take (unat (pos + 8) - unat pos) (drop (unat pos) (mmappedData c))"
    by simp_all
  from unat_add_no_wrap [OF le] have "unat (pos + 8) = unat pos + 8" by simp
  with hi sv v show ?thesis by simp
qed

lemma match_mmap_Inr:
  assumes "match_mmap c key pos = (Inr b, t)" and "length key < 2 ^ 32"
  shows "unat pos + length key \<le> length (mmappedData c) \<and>
         b = (take (length key) (drop (unat pos) (mmappedData c)) = key) \<and>
         unat pos + length key < 2 ^ 32"
proof -
  define klen :: u32 where "klen = of_nat (length key)"
  from assms(2) have uk: "unat klen = length key"
    by (simp add: klen_def unat_of_nat take_bit_nat_eq_self)
  from assms(1) obtain s where s: "slice (mmappedData c) (unat pos) (unat (pos + klen)) = Inr s"
    and b: "b = (s = key)"
    by (auto simp: match_mmap_def Let_def klen_def split: sum.splits)
  from slice_Inr [OF s] have le: "unat pos \<le> unat (pos + klen)"
    and hi: "unat (pos + klen) \<le> length (mmappedData c)"
    and sv: "s = take (unat (pos + klen) - unat pos) (drop (unat pos) (mmappedData c))"
    by simp_all
  from unat_add_no_wrap [OF le] uk have eq: "unat (pos + klen) = unat pos + length key" by simp
  have "unat (pos + klen) < 2 ^ 32" using unsigned_less [of "pos + klen"] by simp
  with hi sv b eq show ?thesis by simp
qed

lemma ReadAt_osFile_full:
  assumes "off + length p \<le> length data"
  shows "ReadAt (osFile data) p off = (take (length p) (drop off data), None)"
  using assms by (simp add: ReadAt_def osFile_def Let_def)

lemma Uint32_append: "4 \<le> length bs \<Longrightarrow> Uint32 (bs @ rest) = Uint32 bs"
  by (auto simp: Uint32_def nth_append)

lemma readNums_rd_osFile:
  assumes "8 \<le> length (buf cx)" and "unat pos + 8 \<le> length data"
  shows "readNums_rd \<lparr>r = osFile data\<rparr> pos cx =
           (Inr (Uint32 (take 8 (drop (unat pos) data)),
                 Uint32 (drop 4 (take 8 (drop (unat pos) data)))),
            cx\<lparr>buf := take 8 (drop (unat pos) data) @ drop 8 (buf cx)\<rparr>, [(unat pos, 8)])"
proof -
  define bs where "bs = take 8 (drop (unat pos) data)"
  from assms(2) have len: "length bs = 8" by (simp add: bs_def)
  from assms have rd: "ReadAt (osFile data) (take 8 (buf cx)) (unat pos) = (bs, None)"
    using ReadAt_osFile_full [of "unat pos" "take 8 (buf cx)" data] by (simp add: bs_def min_def)
  have u1: "Uint32 (bs @ drop 8 (buf cx)) = Uint32 bs" using len by (simp add: Uint32_append)
  have "drop 4 (bs @ drop 8 (buf cx)) = drop 4 bs @ drop 8 (buf cx)" using len by simp
  then have u2: "Uint32 (drop 4 (bs @ drop 8 (buf cx))) = Uint32 (drop 4 bs)"
    using len by (simp add: Uint32_append)
  from assms(1) rd u1 u2 show ?thesis
    by (simp add: readNums_rd_def Let_def bs_def [symmetric])
qed

lemma sim_readNums:
  assumes "readNums_mmap \<lparr>mmappedData = data\<rparr> pos = (Inr v, t)" and "8 \<le> length (buf cx)"
  shows "\<exists>b. readNums_rd \<lparr>r = osFile data\<rparr> pos cx = (Inr v, cx\<lparr>buf := b\<rparr>, [(unat pos, 8)]) \<and>
             length b = length (buf cx)"
proof -
  from readNums_mmap_Inr [OF assms(1)] have le: "unat pos + 8 \<le> length data"
    and v: "v = (Uint32 (take 8 (drop (unat pos) data)),
                 Uint32 (drop 4 (take 8 (drop (unat pos) data))))"
    by simp_all
  from readNums_rd_osFile [OF assms(2) le] v assms(2) le show ?thesis
    by (intro exI [of _ "take 8 (drop (unat pos) data) @ drop 8 (buf cx)"]) simp
qed

lemma unat_add_of_nat:
  "unat (p :: u32) + n < 2 ^ 32 \<Longrightarrow> unat (p + of_nat n) = unat p + n"
proof -
  assume a: "unat p + n < 2 ^ 32"
  then have "n < 2 ^ 32" by simp
  then have "unat (of_nat n :: u32) = n" by (simp add: unat_of_nat take_bit_nat_eq_self)
  with a show ?thesis by (simp add: unat_word_ariths)
qed

lemma list_eq_split: "xs = ys \<longleftrightarrow> take m xs = take m ys \<and> drop m xs = drop m ys"
  by (metis append_take_drop_id)

lemma match_loop_osFile:
  assumes "unat p + length key \<le> length data" and "unat p + length key < 2 ^ 32"
    and "0 < bl" and "bl \<le> length (buf cx)" and "n \<le> length key"
  shows "\<exists>cx' t'. match_loop \<lparr>r = osFile data\<rparr> key n bl (p + of_nat n) cx tr =
           Some (Inr (take (length key - n) (drop (unat p + n) data) = drop n key), cx', t')"
  using assms(3-5)
proof (induction "length key - n" arbitrary: n bl cx tr rule: less_induct)
  case less
  show ?case
  proof (cases "n < length key")
    case False
    with less.prems have "n = length key" by simp
    then show ?thesis by (simp add: match_loop.simps [of _ key "length key"])
  next
    case True
    define bl' where "bl' = (if length key - n < bl then length key - n else bl)"
    from True less.prems have b0: "0 < bl'" and b1: "bl' \<le> length key - n" and b2: "bl' \<le> length (buf cx)"
      by (simp_all add: bl'_def)
    define bs where "bs = take bl' (drop (unat p + n) data)"
    from assms(2) True have un: "unat (p + of_nat n) = unat p + n"
      by (intro unat_add_of_nat) simp
    from b1 assms(1) True have inb: "unat p + n + bl' \<le> length data" by simp
    then have lbs: "length bs = bl'" by (simp add: bs_def)
    from b2 inb have rd: "ReadAt (r \<lparr>r = osFile data\<rparr>) (take bl' (buf cx)) (unat (p + of_nat n)) = (bs, None)"
      using ReadAt_osFile_full [of "unat p + n" "take bl' (buf cx)" data]
      by (simp add: un bs_def min_def)
    define cx1 where "cx1 = cx\<lparr>buf := bs @ drop bl' (buf cx)\<rparr>"
    have l1: "length (buf cx1) = length (buf cx)" using lbs b2 by (simp add: cx1_def)
    let ?X = "take (length key - n) (drop (unat p + n) data)" and ?Y = "drop n key"
    have tX: "take bl' ?X = bs" using b1 by (simp add: bs_def min_def)
    have dX: "drop bl' ?X = take (length key - (n + bl')) (drop (unat p + (n + bl')) data)"
      by (simp add: drop_take add.commute add.left_commute)
    have dY: "drop bl' ?Y = drop (n + bl') key" by (simp add: add.commute)
    have split: "(?X = ?Y) \<longleftrightarrow> (bs = take bl' ?Y \<and>
        take (length key - (n + bl')) (drop (unat p + (n + bl')) data) = drop (n + bl') key)"
      using list_eq_split [of ?X ?Y bl'] tX dX dY by simp
    show ?thesis
    proof (cases "bs \<noteq> take bl' (drop n key)")
      case True
      with split have "\<not> (?X = ?Y)" by simp
      with \<open>n < length key\<close> rd True show ?thesis
        apply (subst match_loop.simps)
        unfolding Let_def bl'_def [symmetric]
        by simp
    next
      case False
      from b0 \<open>n < length key\<close> have m: "length key - (n + bl') < length key - n" by simp
      from b1 \<open>n < length key\<close> have n': "n + bl' \<le> length key" by simp
      from b2 l1 have b2': "bl' \<le> length (buf cx1)" by simp
      from less.hyps [OF m b0 b2' n', of "tr @ [(unat (p + of_nat n), bl')]"]
      obtain cx' t' where ih: "match_loop \<lparr>r = osFile data\<rparr> key (n + bl') bl' (p + of_nat (n + bl')) cx1
            (tr @ [(unat (p + of_nat n), bl')]) =
          Some (Inr (take (length key - (n + bl')) (drop (unat p + (n + bl')) data) = drop (n + bl') key),
                cx', t')"
        by blast
      have pp: "p + of_nat n + of_nat bl' = p + of_nat (n + bl')" by simp
      from False split have eq: "(?X = ?Y) \<longleftrightarrow>
          (take (length key - (n + bl')) (drop (unat p + (n + bl')) data) = drop (n + bl') key)"
        by simp
      from \<open>n < length key\<close> rd False ih show ?thesis
        apply (subst match_loop.simps)
        unfolding Let_def bl'_def [symmetric]
        by (simp add: pp cx1_def eq)
    qed
  qed
qed

lemma sim_match:
  assumes "match_mmap \<lparr>mmappedData = data\<rparr> key pos = (Inr b, t)" and "length key < 2 ^ 32"
    and "0 < length (buf cx)"
  shows "\<exists>cx' t'. match_rd \<lparr>r = osFile data\<rparr> key pos cx = Some (Inr b, cx', t') \<and>
           Context.truncate cx' = Context.truncate cx \<and> length (buf cx') = length (buf cx)"
proof -
  from match_mmap_Inr [OF assms(1,2)] have le: "unat pos + length key \<le> length data"
    and b: "b = (take (length key) (drop (unat pos) data) = key)"
    and lt: "unat pos + length key < 2 ^ 32"
    by simp_all
  from match_loop_osFile [where p = pos and key = key and data = data
      and bl = "length (buf cx)" and cx = cx and n = 0 and tr = "[]"] le lt assms(3) b
  obtain cx' t' where m: "match_rd \<lparr>r = osFile data\<rparr> key pos cx = Some (Inr b, cx', t')"
    by (auto simp: match_rd_def)
  from match_rd_fields [OF m] m show ?thesis by blast
qed

definition agree :: "Context \<Rightarrow> Context_rd \<Rightarrow> bool" where
  "agree ctx cx \<longleftrightarrow> Context.truncate cx = ctx \<and> 8 \<le> length (buf cx)"

lemma agree_fields:
  "agree ctx cx \<Longrightarrow> loop cx = loop ctx \<and> khash cx = khash ctx \<and> kpos cx = kpos ctx \<and>
     hpos cx = hpos ctx \<and> hslots cx = hslots ctx \<and> dpos cx = dpos ctx \<and> dlen cx = dlen ctx"
  by (auto simp: agree_def Context.truncate_def)

lemma agree_buf: "agree ctx cx \<Longrightarrow> length b = length (buf cx) \<Longrightarrow> agree ctx (cx\<lparr>buf := b\<rparr>)"
  by (simp add: agree_def)

lemma agree_advance: "agree ctx cx \<Longrightarrow> agree (advance ctx) (advance cx)"
  by (simp add: agree_def truncate_advance)

lemma agree_found:
  "agree ctx cx \<Longrightarrow> agree (ctx\<lparr>dlen := a, dpos := b\<rparr>) (cx\<lparr>dlen := a, dpos := b\<rparr>)"
  by (simp add: agree_def)

lemma agree_trans:
  "agree ctx cx \<Longrightarrow> Context.truncate cx' = Context.truncate cx \<Longrightarrow>
     length (buf cx') = length (buf cx) \<Longrightarrow> agree ctx cx'"
  by (simp add: agree_def)

text \<open>How the results of one iteration correspond.\<close>

definition same_step ::
  "(error option \<times> Context) + Context \<Rightarrow> (error option \<times> Context_rd) + Context_rd \<Rightarrow> bool" where
  "same_step x y =
     (case x of
        Inl (e, ctx') \<Rightarrow> (case y of Inl (e', cx') \<Rightarrow> e' = e \<and> agree ctx' cx' | Inr _ \<Rightarrow> False)
      | Inr ctx' \<Rightarrow> (case y of Inl _ \<Rightarrow> False | Inr cx' \<Rightarrow> agree ctx' cx'))"

lemma same_step_Inl:
  "same_step (Inl (e, c1)) y \<Longrightarrow> \<exists>cx'. y = Inl (e, cx') \<and> agree c1 cx'"
  by (auto simp: same_step_def split: sum.splits)

lemma same_step_Inr: "same_step (Inr c1) y \<Longrightarrow> \<exists>cx'. y = Inr cx' \<and> agree c1 cx'"
  by (auto simp: same_step_def split: sum.splits)

lemma match_mmap_cases:
  obtains e where "match_mmap c key pos = (Inl e, [(unat pos, unat (of_nat (length key) :: u32))])"
  | b where "match_mmap c key pos = (Inr b, [(unat pos, unat (of_nat (length key) :: u32))])"
  by (cases "slice (mmappedData c) (unat pos) (unat (pos + of_nat (length key)))")
     (auto simp: match_mmap_def Let_def)

lemma sim_probe:
  assumes p: "probe_mmap \<lparr>mmappedData = data\<rparr> key ctx = (x, t)"
    and ne: "\<And>ctx'. x \<noteq> Inl (Some RuntimeError, ctx')"
    and ag: "agree ctx cx" and k: "length key < 2 ^ 32"
  shows "\<exists>y t'. probe_rd \<lparr>r = osFile data\<rparr> key cx = Some (y, t') \<and> same_step x y"
proof -
  let ?c = "\<lparr>mmappedData = data\<rparr>" and ?d = "\<lparr>r = osFile data\<rparr>"
  note f = agree_fields [OF ag]
  from ag have b8: "8 \<le> length (buf cx)" by (simp add: agree_def)
  show ?thesis
  proof (cases rule: readNums_mmap_cases [of ?c "kpos ctx"])
    case (1 e)
    with readNums_mmap_Inl [OF 1] p ne show ?thesis by (auto simp: probe_mmap_def)
  next
    case (2 h pos)
    from sim_readNums [OF 2 b8] f obtain b1 where
      r1: "readNums_rd ?d (kpos cx) cx = (Inr (h, pos), cx\<lparr>buf := b1\<rparr>, [(unat (kpos cx), 8)])"
      and l1: "length b1 = length (buf cx)"
      by auto
    define cx1 where "cx1 = cx\<lparr>buf := b1\<rparr>"
    from agree_buf [OF ag l1] have ag1: "agree ctx cx1" by (simp add: cx1_def)
    note f1 = agree_fields [OF ag1]
    show ?thesis
    proof (cases "pos = 0")
      case True
      with 2 p have "x = Inl (Some EOF, ctx)" by (simp add: probe_mmap_def)
      with True r1 ag1 show ?thesis
        by (simp add: probe_rd_def same_step_def cx1_def)
    next
      case False
      note nz = this
      show ?thesis
      proof (cases "h = khash ctx")
        case False
        with 2 p nz have "x = Inr (advance ctx)" by (simp add: probe_mmap_def)
        with False nz r1 agree_advance [OF ag1] f1 show ?thesis
          by (simp add: probe_rd_def same_step_def cx1_def)
      next
        case True
        note hk = this
        show ?thesis
        proof (cases rule: readNums_mmap_cases [of ?c pos])
          case (1 e)
          with readNums_mmap_Inl [OF 1] 2 p ne nz hk show ?thesis by (auto simp: probe_mmap_def)
        next
          case (2 rklen rdlen)
          note rec = this
          from agree_advance [OF ag1] have aga: "agree (advance ctx) (advance cx1)" .
          then have b8a: "8 \<le> length (buf (advance cx1))" by (simp add: agree_def)
          from sim_readNums [OF rec b8a] obtain b2 where
            r2: "readNums_rd ?d pos (advance cx1) =
                   (Inr (rklen, rdlen), (advance cx1)\<lparr>buf := b2\<rparr>, [(unat pos, 8)])"
            and l2: "length b2 = length (buf (advance cx1))"
            by auto
          define cx2 where "cx2 = (advance cx1)\<lparr>buf := b2\<rparr>"
          from agree_buf [OF aga l2] have ag2: "agree (advance ctx) cx2" by (simp add: cx2_def)
          show ?thesis
          proof (cases "rklen = of_nat (length key)")
            case False
            with \<open>readNums_mmap ?c (kpos ctx) = (Inr (h, pos), [(unat (kpos ctx), 8)])\<close> rec p nz hk
            have "x = Inr (advance ctx)" by (simp add: probe_mmap_def)
            with False nz hk r1 r2 ag2 f1 show ?thesis
              by (simp add: probe_rd_def same_step_def cx1_def cx2_def)
          next
            case True
            note kl = this
            show ?thesis
            proof (cases rule: match_mmap_cases [of ?c key "pos + 8"])
              case (1 e)
              with match_mmap_Inl [OF 1]
                \<open>readNums_mmap ?c (kpos ctx) = (Inr (h, pos), [(unat (kpos ctx), 8)])\<close>
                rec p ne nz hk kl
              show ?thesis by (auto simp: probe_mmap_def)
            next
              case (2 b)
              from ag2 have "0 < length (buf cx2)" by (auto simp: agree_def)
              from sim_match [OF 2 k this] obtain cx3 t3 where
                m: "match_rd ?d key (pos + 8) cx2 = Some (Inr b, cx3, t3)"
                and t3: "Context.truncate cx3 = Context.truncate cx2"
                and l3: "length (buf cx3) = length (buf cx2)"
                by blast
              from agree_trans [OF ag2 t3 l3] have ag3: "agree (advance ctx) cx3" .
              show ?thesis
              proof (cases b)
                case True
                with 2 \<open>readNums_mmap ?c (kpos ctx) = (Inr (h, pos), [(unat (kpos ctx), 8)])\<close>
                  rec p nz hk kl
                have "x = Inl (None, (advance ctx)\<lparr>dlen := rdlen,
                                dpos := pos + 8 + of_nat (length key)\<rparr>)"
                  by (simp add: probe_mmap_def)
                with True nz hk kl r1 r2 m agree_found [OF ag3] f1 show ?thesis
                  by (simp add: probe_rd_def same_step_def cx1_def cx2_def)
              next
                case False
                with 2 \<open>readNums_mmap ?c (kpos ctx) = (Inr (h, pos), [(unat (kpos ctx), 8)])\<close>
                  rec p nz hk kl
                have "x = Inr (advance ctx)" by (simp add: probe_mmap_def)
                with False nz hk kl r1 r2 m ag3 f1 show ?thesis
                  by (simp add: probe_rd_def same_step_def cx1_def cx2_def)
              qed
            qed
          qed
        qed
      qed
    qed
  qed
qed

lemma sim_find_loop:
  assumes "find_loop_mmap \<lparr>mmappedData = data\<rparr> key ctx tr = (res, ctx', tr')"
    and "res \<noteq> Some RuntimeError" and "agree ctx cx" and "length key < 2 ^ 32"
  shows "\<exists>cx' ts'. find_loop_rd \<lparr>r = osFile data\<rparr> key cx ts = Some (res, cx', ts') \<and>
           agree ctx' cx'"
  using assms(1,3)
proof (induction ctx tr arbitrary: cx ts
        rule: find_loop_mmap_induct2 [where c = "\<lparr>mmappedData = data\<rparr>" and key = key])
  case (step ctx tr)
  let ?c = "\<lparr>mmappedData = data\<rparr>" and ?d = "\<lparr>r = osFile data\<rparr>"
  note f = agree_fields [OF step.prems(2)]
  show ?case
  proof (cases "loop ctx < hslots ctx")
    case False
    with step.prems f show ?thesis
      by (simp add: find_loop_mmap_unfold [of ?c key ctx] find_loop_rd_unfold [of ?d key cx])
  next
    case True
    obtain x t where p: "probe_mmap ?c key ctx = (x, t)" by (cases "probe_mmap ?c key ctx")
    show ?thesis
    proof (cases x)
      case (Inl a)
      obtain e c1 where a: "a = (e, c1)" by (cases a)
      from step.prems(1) True p Inl a have r: "res = e" "ctx' = c1"
        by (simp_all add: find_loop_mmap_unfold [of ?c key ctx])
      with assms(2) Inl a have "\<And>z. x \<noteq> Inl (Some RuntimeError, z)" by auto
      from sim_probe [OF p this step.prems(2) assms(4)] obtain y t1
        where pr: "probe_rd ?d key cx = Some (y, t1)" and ss: "same_step x y" by blast
      from same_step_Inl [of e c1 y] ss Inl a obtain cx1
        where y: "y = Inl (e, cx1)" and ag1: "agree c1 cx1" by auto
      from pr y ag1 r True f show ?thesis
        by (simp add: find_loop_rd_unfold [of ?d key cx])
    next
      case (Inr c1)
      with probe_mmap_Inr p have c1: "c1 = advance ctx" by blast
      from step.prems(1) True p Inr c1
      have fl: "find_loop_mmap ?c key (advance ctx) (tr @ t) = (res, ctx', tr')"
        by (simp add: find_loop_mmap_unfold [of ?c key ctx])
      from Inr have "\<And>z. x \<noteq> Inl (Some RuntimeError, z)" by simp
      from sim_probe [OF p this step.prems(2) assms(4)] obtain y t1
        where pr0: "probe_rd ?d key cx = Some (y, t1)" and ss: "same_step x y" by blast
      from same_step_Inr [of c1 y] ss Inr c1 obtain cx1
        where y: "y = Inr cx1" and ag1: "agree (advance ctx) cx1" by auto
      from pr0 y have pr: "probe_rd ?d key cx = Some (Inr cx1, t1)" by simp
      from p Inr c1 have p': "probe_mmap ?c key ctx = (Inr (advance ctx), t)" by simp
      from step.IH [OF True p' fl ag1, of "ts @ t1"] pr True f show ?thesis
        by (simp add: find_loop_rd_unfold [of ?d key cx])
    qed
  qed
qed

lemma agree_start:
  "agree ctx cx \<Longrightarrow>
     agree (ctx\<lparr>hpos := a, hslots := b, khash := h, kpos := k\<rparr>)
           (cx\<lparr>hpos := a, hslots := b, khash := h, kpos := k\<rparr>)"
  by (simp add: agree_def)

lemma agree_header: "agree ctx cx \<Longrightarrow> agree (ctx\<lparr>hpos := a, hslots := b\<rparr>) (cx\<lparr>hpos := a, hslots := b\<rparr>)"
  by (simp add: agree_def)

lemma agree_FindStart: "agree ctx cx \<Longrightarrow> agree (FindStart ctx) (FindStart cx)"
  by (simp add: agree_def FindStart_def)

lemma sim_find:
  assumes fm: "find_mmap \<lparr>mmappedData = data\<rparr> key ctx = (res, ctx', tr)"
    and ne: "res \<noteq> Some RuntimeError" and ag: "agree ctx cx" and k: "length key < 2 ^ 32"
  shows "\<exists>cx' ts. find_rd \<lparr>r = osFile data\<rparr> key cx = Some (res, cx', ts) \<and> agree ctx' cx'"
proof (cases "loop ctx = 0")
  case False
  with fm have "find_loop_mmap \<lparr>mmappedData = data\<rparr> key ctx [] = (res, ctx', tr)"
    by (simp add: find_mmap_def)
  from sim_find_loop [OF this ne ag k, of "[]"] False agree_fields [OF ag] show ?thesis
    by (simp add: find_rd_def)
next
  case True
  let ?c = "\<lparr>mmappedData = data\<rparr>" and ?d = "\<lparr>r = osFile data\<rparr>"
  define off :: u32 where "off = push_bit 3 (checksum key) AND 2047"
  from True agree_fields [OF ag] have l0: "loop cx = 0" by simp
  from ag have b8: "8 \<le> length (buf cx)" by (simp add: agree_def)
  show ?thesis
  proof (cases rule: readNums_mmap_cases [of ?c off])
    case (1 e)
    with readNums_mmap_Inl [OF 1] fm ne True show ?thesis
      by (auto simp: find_mmap_def Let_def off_def)
  next
    case (2 hp hs)
    from sim_readNums [OF 2 b8] obtain b where
      r1: "readNums_rd ?d off cx = (Inr (hp, hs), cx\<lparr>buf := b\<rparr>, [(unat off, 8)])"
      and l1: "length b = length (buf cx)"
      by auto
    from agree_buf [OF ag l1] have ag1: "agree ctx (cx\<lparr>buf := b\<rparr>)" .
    show ?thesis
    proof (cases "hs = 0")
      case True
      with 2 fm \<open>loop ctx = 0\<close> have "res = Some EOF" "ctx' = ctx\<lparr>hpos := hp, hslots := 0\<rparr>"
        by (simp_all add: find_mmap_def Let_def off_def)
      with True r1 l0 agree_header [OF ag1, where a = hp and b = 0] show ?thesis
        by (simp add: find_rd_def Let_def off_def)
    next
      case False
      define k0 where "k0 = hp + push_bit 3 (drop_bit 8 (checksum key) mod hs)"
      from False 2 fm \<open>loop ctx = 0\<close>
      have fl: "find_loop_mmap ?c key (ctx\<lparr>hpos := hp, hslots := hs, khash := checksum key, kpos := k0\<rparr>)
              [(unat off, 8)] = (res, ctx', tr)"
        by (simp add: find_mmap_def Let_def off_def k0_def)
      from sim_find_loop [OF fl ne agree_start [OF ag1] k, of "[(unat off, 8)]"]
        False r1 l0 show ?thesis
        by (simp add: find_rd_def Let_def off_def k0_def)
    qed
  qed
qed

lemma sim_Data:
  assumes dm: "fst (Data_mmap \<lparr>mmappedData = data\<rparr> key ctx) = Returned v e"
    and ne: "e \<noteq> Some RuntimeError" and ag: "agree ctx cx" and k: "length key < 2 ^ 32"
  shows "map_option fst (Data_rd \<lparr>r = osFile data\<rparr> key cx) = Some (Returned v e)"
proof -
  let ?c = "\<lparr>mmappedData = data\<rparr>" and ?d = "\<lparr>r = osFile data\<rparr>"
  obtain res ctx' tr where fm: "find_mmap ?c key (FindStart ctx) = (res, ctx', tr)"
    by (cases "find_mmap ?c key (FindStart ctx)")
  show ?thesis
  proof (cases res)
    case (Some e')
    with fm dm have "v = None" "e = Some e'" by (simp_all add: Data_mmap_def)
    with ne Some have "res \<noteq> Some RuntimeError" by simp
    from sim_find [OF fm this agree_FindStart [OF ag] k] Some \<open>v = None\<close> \<open>e = Some e'\<close>
    show ?thesis by (auto simp: Data_rd_def)
  next
    case None
    then have "res \<noteq> Some RuntimeError" by simp
    from sim_find [OF fm this agree_FindStart [OF ag] k] None obtain cx' ts where
      fr: "find_rd ?d key (FindStart cx) = Some (None, cx', ts)" and ag': "agree ctx' cx'"
      by blast
    note f = agree_fields [OF ag']
    from fm None dm obtain s where
      s: "slice data (unat (dpos ctx')) (unat (dpos ctx' + dlen ctx')) = Inr s"
      and v: "v = Some s" "e = None"
      by (auto simp: Data_mmap_def split: sum.splits)
    from slice_Inr [OF s] have le: "unat (dpos ctx') \<le> unat (dpos ctx' + dlen ctx')"
      and hi: "unat (dpos ctx' + dlen ctx') \<le> length data"
      and sv: "s = take (unat (dpos ctx' + dlen ctx') - unat (dpos ctx')) (drop (unat (dpos ctx')) data)"
      by simp_all
    from unat_add_no_wrap [OF le] have eq: "unat (dpos ctx' + dlen ctx') = unat (dpos ctx') + unat (dlen ctx')" .
    from hi eq have "ReadAt (osFile data) (replicate (unat (dlen ctx')) 0) (unat (dpos ctx')) =
        (take (unat (dlen ctx')) (drop (unat (dpos ctx')) data), None)"
      using ReadAt_osFile_full [of "unat (dpos ctx')" "replicate (unat (dlen ctx')) 0" data]
      by simp
    with fr f sv eq v show ?thesis by (simp add: Data_rd_def)
  qed
qed

text \<open>
  C9, as amended. On the same file bytes, with a key shorter than \<open>2^32\<close> bytes, contexts
  that agree on their seven fields and a scratch buffer of at least 8 bytes: whenever the
  memory-mapped \<open>find\<close> ends without a runtime error, that is with found or not found,
  the positioned-read \<open>find\<close> ends with the same result and leaves the same seven fields,
  \<open>dpos\<close> and \<open>dlen\<close> among them; and whenever the memory-mapped \<open>Data\<close> returns
  without a runtime error, the positioned-read \<open>Data\<close> returns the same bytes and error.
\<close>

theorem builds_agree_within_file:
  "Context.truncate cx = ctx \<and> 8 \<le> length (buf cx) \<and> length key < 2 ^ 32 \<longrightarrow>
     (find_mmap \<lparr>mmappedData = data\<rparr> key ctx = (res, ctx', tr) \<and> res \<noteq> Some RuntimeError \<longrightarrow>
        (\<exists>cx' ts. find_rd \<lparr>r = osFile data\<rparr> key cx = Some (res, cx', ts) \<and>
                   Context.truncate cx' = ctx' \<and> dpos cx' = dpos ctx' \<and> dlen cx' = dlen ctx')) \<and>
     (fst (Data_mmap \<lparr>mmappedData = data\<rparr> key ctx) = Returned v e \<and> e \<noteq> Some RuntimeError \<longrightarrow>
        map_option fst (Data_rd \<lparr>r = osFile data\<rparr> key cx) = Some (Returned v e))"
proof (intro impI conjI)
  assume a: "Context.truncate cx = ctx \<and> 8 \<le> length (buf cx) \<and> length key < 2 ^ 32"
  then have ag: "agree ctx cx" and k: "length key < 2 ^ 32" by (simp_all add: agree_def)
  {
    assume "find_mmap \<lparr>mmappedData = data\<rparr> key ctx = (res, ctx', tr) \<and> res \<noteq> Some RuntimeError"
    then have fm: "find_mmap \<lparr>mmappedData = data\<rparr> key ctx = (res, ctx', tr)"
      and ne: "res \<noteq> Some RuntimeError" by simp_all
    from sim_find [OF fm ne ag k] obtain cx' ts where
      "find_rd \<lparr>r = osFile data\<rparr> key cx = Some (res, cx', ts)" "agree ctx' cx'" by blast
    with agree_fields [of ctx' cx']
    show "\<exists>cx' ts. find_rd \<lparr>r = osFile data\<rparr> key cx = Some (res, cx', ts) \<and>
                   Context.truncate cx' = ctx' \<and> dpos cx' = dpos ctx' \<and> dlen cx' = dlen ctx'"
      by (auto simp: agree_def)
  }
  {
    assume "fst (Data_mmap \<lparr>mmappedData = data\<rparr> key ctx) = Returned v e \<and> e \<noteq> Some RuntimeError"
    then show "map_option fst (Data_rd \<lparr>r = osFile data\<rparr> key cx) = Some (Returned v e)"
      using sim_Data [OF _ _ ag k] by blast
  }
qed

section \<open>The probe sequence and its wrap-around\<close>

text \<open>The position of slot i of the table of a context.\<close>

definition slot_pos :: "'a Context_scheme \<Rightarrow> nat \<Rightarrow> u32" where
  "slot_pos ctx i = hpos ctx + 8 * of_nat i"

definition table_in_range :: "'a Context_scheme \<Rightarrow> bool" where
  "table_in_range ctx \<longleftrightarrow> unat (hpos ctx) + 8 * unat (hslots ctx) < 2 ^ 32"

lemma unat_slot_pos:
  assumes "table_in_range ctx" and "i \<le> unat (hslots ctx)"
  shows "unat (slot_pos ctx i) = unat (hpos ctx) + 8 * i"
proof -
  from assms have lt: "unat (hpos ctx) + 8 * i < 2 ^ 32" by (simp add: table_in_range_def)
  have "slot_pos ctx i = hpos ctx + of_nat (8 * i)" by (simp add: slot_pos_def)
  with unat_add_of_nat [OF lt] show ?thesis by simp
qed

lemma table_end:
  assumes "table_in_range ctx"
  shows "hpos ctx + push_bit 3 (hslots ctx) = slot_pos ctx (unat (hslots ctx))"
  by (simp add: slot_pos_def push_bit_eq_mult mult.commute)

lemma slot_pos_Suc: "slot_pos ctx i + 8 = slot_pos ctx (Suc i)"
  by (simp add: slot_pos_def algebra_simps)

lemma slot_pos_inj:
  assumes "table_in_range ctx" and "i \<le> unat (hslots ctx)" and "j \<le> unat (hslots ctx)"
    and "slot_pos ctx i = slot_pos ctx j"
  shows "i = j"
proof -
  from assms(4) have "unat (slot_pos ctx i) = unat (slot_pos ctx j)" by (rule arg_cong)
  then have "unat (hpos ctx) + 8 * i = unat (hpos ctx) + 8 * j"
    by (simp only: unat_slot_pos [OF assms(1,2)] unat_slot_pos [OF assms(1,3)])
  then show ?thesis by arith
qed

lemma advance_slot:
  assumes r: "table_in_range ctx" and i: "i < unat (hslots ctx)" and k: "kpos ctx = slot_pos ctx i"
  shows "kpos (advance ctx) = slot_pos ctx (Suc i mod unat (hslots ctx))"
proof (cases "Suc i = unat (hslots ctx)")
  case True
  with k have "kpos ctx + 8 = hpos ctx + push_bit 3 (hslots ctx)"
    by (simp add: slot_pos_Suc table_end [OF r])
  with True show ?thesis by (simp add: advance_kpos slot_pos_def)
next
  case False
  with i have lt: "Suc i < unat (hslots ctx)" by simp
  have "kpos ctx + 8 \<noteq> hpos ctx + push_bit 3 (hslots ctx)"
  proof
    assume "kpos ctx + 8 = hpos ctx + push_bit 3 (hslots ctx)"
    with k have "slot_pos ctx (Suc i) = slot_pos ctx (unat (hslots ctx))"
      by (simp add: slot_pos_Suc table_end [OF r])
    from slot_pos_inj [OF r _ _ this] lt show False by simp
  qed
  with lt k show ?thesis by (simp add: advance_kpos slot_pos_Suc)
qed

text \<open>
  Slot at position p is occupied by a record that is not the key's: the probe goes on.
  Slot at position p holds the key: its hash, its length and its bytes match.
\<close>

definition slot_other :: "Cdb \<Rightarrow> byte list \<Rightarrow> u32 \<Rightarrow> u32 \<Rightarrow> bool" where
  "slot_other c key kh p =
     (case fst (readNums_mmap c p) of
        Inl e \<Rightarrow> False
      | Inr (h, pos) \<Rightarrow>
          pos \<noteq> 0 \<and>
          (if h = kh then
             (case fst (readNums_mmap c pos) of
                Inl e \<Rightarrow> False
              | Inr (rklen, rdlen) \<Rightarrow>
                  (if rklen = of_nat (length key)
                   then fst (match_mmap c key (pos + 8)) = Inr False else True))
           else True))"

definition slot_match :: "Cdb \<Rightarrow> byte list \<Rightarrow> u32 \<Rightarrow> u32 \<Rightarrow> u32 \<Rightarrow> u32 \<Rightarrow> bool" where
  "slot_match c key kh p pos rdlen \<longleftrightarrow>
     fst (readNums_mmap c p) = Inr (kh, pos) \<and> pos \<noteq> 0 \<and>
     fst (readNums_mmap c pos) = Inr (of_nat (length key), rdlen) \<and>
     fst (match_mmap c key (pos + 8)) = Inr True"

lemma slot_other_continues:
  assumes "slot_other c key (khash ctx) (kpos ctx)"
  shows "\<exists>t. probe_mmap c key ctx = (Inr (advance ctx), t)"
proof (cases rule: readNums_mmap_cases [of c "kpos ctx"])
  case (1 e)
  with assms show ?thesis by (simp add: slot_other_def)
next
  case (2 h pos)
  with assms have nz: "pos \<noteq> 0" by (simp add: slot_other_def)
  show ?thesis
  proof (cases "h = khash ctx")
    case False
    with 2 nz show ?thesis by (simp add: probe_mmap_def)
  next
    case True
    show ?thesis
    proof (cases rule: readNums_mmap_cases [of c pos])
      case (1 e)
      with assms 2 True show ?thesis by (simp add: slot_other_def)
    next
      case r: (2 rklen rdlen)
      show ?thesis
      proof (cases "rklen = of_nat (length key)")
        case False
        with 2 r nz True show ?thesis by (simp add: probe_mmap_def)
      next
        case kl: True
        with assms 2 r True have "fst (match_mmap c key (pos + 8)) = Inr False"
          by (simp add: slot_other_def)
        from match_mmap_fst [OF this] 2 r nz True kl show ?thesis
          by (simp add: probe_mmap_def)
      qed
    qed
  qed
qed

lemma unat_loop_less: "unat (l :: u32) < unat n \<Longrightarrow> l < n"
  by (simp add: word_less_nat_alt)

lemma probe_walk_mmap:
  assumes "table_in_range ctx" and "i < unat (hslots ctx)" and "kpos ctx = slot_pos ctx i"
    and "unat (loop ctx) + k < unat (hslots ctx)"
    and "\<forall>j<k. slot_other c key (khash ctx) (slot_pos ctx ((i + j) mod unat (hslots ctx)))"
    and "slot_match c key (khash ctx) (slot_pos ctx ((i + k) mod unat (hslots ctx))) pos rdlen"
  shows "\<exists>ctx' tr'. find_loop_mmap c key ctx tr = (None, ctx', tr') \<and>
           dpos ctx' = pos + 8 + of_nat (length key) \<and> dlen ctx' = rdlen \<and>
           unat (loop ctx') = unat (loop ctx) + k + 1 \<and>
           kpos ctx' = slot_pos ctx (Suc (i + k) mod unat (hslots ctx)) \<and>
           hpos ctx' = hpos ctx \<and> hslots ctx' = hslots ctx \<and> khash ctx' = khash ctx"
  using assms
proof (induction k arbitrary: ctx i tr)
  case 0
  let ?n = "unat (hslots ctx)"
  from 0(4) have lt: "loop ctx < hslots ctx" by (intro unat_loop_less) simp
  from 0(2,3,6) have m: "slot_match c key (khash ctx) (kpos ctx) pos rdlen" by simp
  then have m1: "fst (readNums_mmap c (kpos ctx)) = Inr (khash ctx, pos)" and m2: "pos \<noteq> 0"
    and m3: "fst (readNums_mmap c pos) = Inr (of_nat (length key), rdlen)"
    and m4: "fst (match_mmap c key (pos + 8)) = Inr True"
    by (simp_all add: slot_match_def)
  from match_found_mmap [OF lt m1 m2 m3 m4, of tr] advance_slot [OF 0(1,2,3)]
    unat_plus1_less [OF lt]
  show ?case by simp
next
  case (Suc k)
  let ?n = "unat (hslots ctx)"
  from Suc.prems(4) have lt: "loop ctx < hslots ctx" by (intro unat_loop_less) simp
  from Suc.prems(2,3,5) have "slot_other c key (khash ctx) (kpos ctx)" by force
  from slot_other_continues [OF this] obtain t where
    p: "probe_mmap c key ctx = (Inr (advance ctx), t)" by blast
  with lt have fl: "find_loop_mmap c key ctx tr = find_loop_mmap c key (advance ctx) (tr @ t)"
    by (simp add: find_loop_mmap_unfold [of c key ctx])
  define i' where "i' = Suc i mod ?n"
  have sp: "slot_pos (advance ctx) m = slot_pos ctx m" for m by (simp add: slot_pos_def)
  have a1: "table_in_range (advance ctx)" using Suc.prems(1) by (simp add: table_in_range_def)
  have a2: "i' < unat (hslots (advance ctx))" using Suc.prems(2) by (simp add: i'_def)
  have a3: "kpos (advance ctx) = slot_pos (advance ctx) i'"
    using advance_slot [OF Suc.prems(1,2,3)] by (simp add: i'_def sp)
  have a4: "unat (loop (advance ctx)) + k < unat (hslots (advance ctx))"
    using Suc.prems(4) unat_plus1_less [OF lt] by simp
  have idx: "(i' + j) mod ?n = (i + Suc j) mod ?n" for j
    unfolding i'_def by (metis add_Suc add_Suc_right mod_add_left_eq)
  have a5: "\<forall>j<k. slot_other c key (khash (advance ctx))
              (slot_pos (advance ctx) ((i' + j) mod unat (hslots (advance ctx))))"
  proof (intro allI impI)
    fix j assume "j < k"
    then have "Suc j < Suc k" by simp
    with Suc.prems(5) have "slot_other c key (khash ctx) (slot_pos ctx ((i + Suc j) mod ?n))"
      by blast
    then show "slot_other c key (khash (advance ctx))
              (slot_pos (advance ctx) ((i' + j) mod unat (hslots (advance ctx))))"
      by (simp add: sp idx)
  qed
  have a6: "slot_match c key (khash (advance ctx))
              (slot_pos (advance ctx) ((i' + k) mod unat (hslots (advance ctx)))) pos rdlen"
    using Suc.prems(6) by (simp add: sp idx)
  from Suc.IH [OF a1 a2 a3 a4 a5 a6, of "tr @ t"] obtain ctx' tr' where
    r: "find_loop_mmap c key (advance ctx) (tr @ t) = (None, ctx', tr')"
    "dpos ctx' = pos + 8 + of_nat (length key)" "dlen ctx' = rdlen"
    "unat (loop ctx') = unat (loop (advance ctx)) + k + 1"
    "kpos ctx' = slot_pos (advance ctx) (Suc (i' + k) mod unat (hslots (advance ctx)))"
    "hpos ctx' = hpos (advance ctx)" "hslots ctx' = hslots (advance ctx)"
    "khash ctx' = khash (advance ctx)"
    by blast
  have "Suc (i' + k) mod ?n = Suc (i + Suc k) mod ?n"
    using idx [of "Suc k"] by simp
  with r fl unat_plus1_less [OF lt] show ?case by (simp add: sp)
qed

text \<open>The start index of the probe, on words and on naturals.\<close>

lemma start_index:
  "unat (drop_bit 8 (h :: u32) mod hs) = (unat h div 256) mod unat hs"
proof -
  have "unat (drop_bit 8 h) = drop_bit 8 (unat h)" by (rule unat_drop_bit_eq)
  also have "\<dots> = unat h div 256" by (simp add: drop_bit_eq_div)
  finally have "unat (drop_bit 8 h) = unat h div 256" .
  then show ?thesis by (simp only: unat_mod)
qed

lemma start_kpos:
  "hp + push_bit 3 (drop_bit 8 (h :: u32) mod hs) = hp + 8 * of_nat ((unat h div 256) mod unat hs)"
proof -
  have "of_nat (unat (drop_bit 8 h mod hs)) = drop_bit 8 h mod hs" by simp
  then have "of_nat ((unat h div 256) mod unat hs) = drop_bit 8 h mod hs"
    by (simp only: start_index)
  then show ?thesis by (simp only: push_bit_eq_mult) (simp add: mult.commute)
qed

lemma find_mmap_walk:
  assumes l0: "loop ctx = 0"
    and hd: "fst (readNums_mmap c ((checksum key AND 0xFF) * 8)) = Inr (hp, hs)"
    and nz: "hs \<noteq> 0" and rg: "unat hp + 8 * unat hs < 2 ^ 32" and k: "k < unat hs"
    and oth: "\<forall>j<k. slot_other c key (checksum key)
                (hp + 8 * of_nat ((unat (checksum key) div 256 + j) mod unat hs))"
    and mt: "slot_match c key (checksum key)
                (hp + 8 * of_nat ((unat (checksum key) div 256 + k) mod unat hs)) pos rdlen"
  shows "\<exists>ctx' tr'. find_mmap c key ctx = (None, ctx', tr') \<and>
           dpos ctx' = pos + 8 + of_nat (length key) \<and> dlen ctx' = rdlen \<and>
           hpos ctx' = hp \<and> hslots ctx' = hs \<and> khash ctx' = checksum key \<and>
           unat (loop ctx') = k + 1"
proof -
  let ?h = "checksum key" and ?n = "unat hs"
  define i where "i = (unat ?h div 256) mod ?n"
  define ctx2 where "ctx2 = ctx\<lparr>hpos := hp, hslots := hs, khash := ?h, kpos := hp + 8 * of_nat i\<rparr>"
  from nz have npos: "0 < ?n" by (simp add: unat_gt_0)
  from hd have rn: "readNums_mmap c (push_bit 3 ?h AND 2047) =
      (Inr (hp, hs), [(unat (push_bit 3 ?h AND 2047 :: u32), 8)])"
    using readNums_mmap_fst [of c "push_bit 3 ?h AND 2047" "Inr (hp, hs)"] by (simp add: hdr_word)
  from l0 rn nz have fm: "find_mmap c key ctx =
      find_loop_mmap c key ctx2 [(unat (push_bit 3 ?h AND 2047 :: u32), 8)]"
    by (simp add: find_mmap_def Let_def ctx2_def i_def start_kpos)
  have sp: "slot_pos ctx2 m = hp + 8 * of_nat m" for m by (simp add: slot_pos_def ctx2_def)
  have a1: "table_in_range ctx2" using rg by (simp add: table_in_range_def ctx2_def)
  have a2: "i < unat (hslots ctx2)" using npos by (simp add: i_def ctx2_def)
  have a3: "kpos ctx2 = slot_pos ctx2 i" by (simp add: sp) (simp add: ctx2_def)
  have a4: "unat (loop ctx2) + k < unat (hslots ctx2)" using l0 k by (simp add: ctx2_def)
  have idx: "(i + j) mod ?n = (unat ?h div 256 + j) mod ?n" for j
    unfolding i_def by (simp add: mod_add_left_eq)
  have hs2: "unat (hslots ctx2) = ?n" "khash ctx2 = ?h" by (simp_all add: ctx2_def)
  have a5: "\<forall>j<k. slot_other c key (khash ctx2) (slot_pos ctx2 ((i + j) mod unat (hslots ctx2)))"
    using oth by (simp add: sp hs2 idx)
  have a6: "slot_match c key (khash ctx2) (slot_pos ctx2 ((i + k) mod unat (hslots ctx2))) pos rdlen"
    using mt by (simp add: sp hs2 idx)
  from probe_walk_mmap [OF a1 a2 a3 a4 a5 a6, of "[(unat (push_bit 3 ?h AND 2047 :: u32), 8)]"]
    fm l0 show ?thesis
    by (auto simp: ctx2_def)
qed

text \<open>
  C5. The probe wraps around the slot table. After a slot is examined, \<open>kpos\<close> is advanced
  by 8 and is set back to \<open>hpos\<close> exactly when it has reached \<open>hpos + (hslots << 3)\<close>. For a
  table that ends below \<open>2^32\<close>, the slot after slot \<open>i\<close> is slot \<open>(i + 1) mod hslots\<close>, and
  the reset happens exactly at the last slot. Consequently, when the slots from the start
  index on, taken modulo \<open>hslots\<close>, are occupied by entries that are not the key's and are
  followed by the key's entry, the probe loop returns found with that record, also when the
  key's entry lies before the start index; and so does \<open>find\<close> of either build on a fresh
  context, where the start index is \<open>(hash >> 8) mod hslots\<close>.
\<close>

theorem probe_wraps_around:
  "kpos (advance ctx) =
     (if kpos ctx + 8 = hpos ctx + push_bit 3 (hslots ctx) then hpos ctx else kpos ctx + 8) \<and>
   (table_in_range ctx \<and> i < unat (hslots ctx) \<and> kpos ctx = slot_pos ctx i \<longrightarrow>
      kpos (advance ctx) = slot_pos ctx (Suc i mod unat (hslots ctx)) \<and>
      (kpos ctx + 8 = hpos ctx + push_bit 3 (hslots ctx) \<longleftrightarrow> Suc i = unat (hslots ctx))) \<and>
   (table_in_range ctx \<and> i < unat (hslots ctx) \<and> kpos ctx = slot_pos ctx i \<and>
    unat (loop ctx) + k < unat (hslots ctx) \<and>
    (\<forall>j<k. slot_other c key (khash ctx) (slot_pos ctx ((i + j) mod unat (hslots ctx)))) \<and>
    slot_match c key (khash ctx) (slot_pos ctx ((i + k) mod unat (hslots ctx))) pos rdlen \<longrightarrow>
      (\<exists>ctx' tr'. find_loop_mmap c key ctx tr = (None, ctx', tr') \<and>
         dpos ctx' = pos + 8 + of_nat (length key) \<and> dlen ctx' = rdlen \<and>
         unat (loop ctx') = unat (loop ctx) + k + 1 \<and>
         kpos ctx' = slot_pos ctx (Suc (i + k) mod unat (hslots ctx)))) \<and>
   (loop ctxs = 0 \<and>
    fst (readNums_mmap c ((checksum key AND 0xFF) * 8)) = Inr (hp, hs) \<and> hs \<noteq> 0 \<and>
    unat hp + 8 * unat hs < 2 ^ 32 \<and> n < unat hs \<and>
    (\<forall>j<n. slot_other c key (checksum key)
              (hp + 8 * of_nat ((unat (checksum key) div 256 + j) mod unat hs))) \<and>
    slot_match c key (checksum key)
      (hp + 8 * of_nat ((unat (checksum key) div 256 + n) mod unat hs)) pos rdlen \<longrightarrow>
      (\<exists>ctx' tr'. find_mmap c key ctxs = (None, ctx', tr') \<and>
         dpos ctx' = pos + 8 + of_nat (length key) \<and> dlen ctx' = rdlen) \<and>
      (Context.truncate cxs = ctxs \<and> 8 \<le> length (buf cxs) \<and> length key < 2 ^ 32 \<longrightarrow>
         (\<exists>cx' ts. find_rd \<lparr>r = osFile (mmappedData c)\<rparr> key cxs = Some (None, cx', ts) \<and>
            dpos cx' = pos + 8 + of_nat (length key) \<and> dlen cx' = rdlen)))"
proof -
  have p1: "kpos (advance ctx) =
     (if kpos ctx + 8 = hpos ctx + push_bit 3 (hslots ctx) then hpos ctx else kpos ctx + 8)"
    by (rule advance_kpos)
  have p2: "kpos (advance ctx) = slot_pos ctx (Suc i mod unat (hslots ctx)) \<and>
      (kpos ctx + 8 = hpos ctx + push_bit 3 (hslots ctx) \<longleftrightarrow> Suc i = unat (hslots ctx))"
    if h: "table_in_range ctx" "i < unat (hslots ctx)" "kpos ctx = slot_pos ctx i"
  proof -
    have "Suc i = unat (hslots ctx)"
      if e: "kpos ctx + 8 = hpos ctx + push_bit 3 (hslots ctx)"
    proof -
      from e h(3) have "slot_pos ctx (Suc i) = slot_pos ctx (unat (hslots ctx))"
        by (simp add: slot_pos_Suc table_end [OF h(1)])
      from slot_pos_inj [OF h(1) _ _ this] h(2) show ?thesis by simp
    qed
    moreover have "kpos ctx + 8 = hpos ctx + push_bit 3 (hslots ctx)"
      if "Suc i = unat (hslots ctx)"
      using that h(3) by (simp add: slot_pos_Suc table_end [OF h(1)])
    ultimately show ?thesis using advance_slot [OF h] by blast
  qed
  have p3: "\<exists>ctx' tr'. find_loop_mmap c key ctx tr = (None, ctx', tr') \<and>
         dpos ctx' = pos + 8 + of_nat (length key) \<and> dlen ctx' = rdlen \<and>
         unat (loop ctx') = unat (loop ctx) + k + 1 \<and>
         kpos ctx' = slot_pos ctx (Suc (i + k) mod unat (hslots ctx))"
    if h: "table_in_range ctx" "i < unat (hslots ctx)" "kpos ctx = slot_pos ctx i"
      "unat (loop ctx) + k < unat (hslots ctx)"
      "\<forall>j<k. slot_other c key (khash ctx) (slot_pos ctx ((i + j) mod unat (hslots ctx)))"
      "slot_match c key (khash ctx) (slot_pos ctx ((i + k) mod unat (hslots ctx))) pos rdlen"
    using probe_walk_mmap [OF h, of tr] by blast
  have p4: "(\<exists>ctx' tr'. find_mmap c key ctxs = (None, ctx', tr') \<and>
         dpos ctx' = pos + 8 + of_nat (length key) \<and> dlen ctx' = rdlen) \<and>
      (Context.truncate cxs = ctxs \<and> 8 \<le> length (buf cxs) \<and> length key < 2 ^ 32 \<longrightarrow>
         (\<exists>cx' ts. find_rd \<lparr>r = osFile (mmappedData c)\<rparr> key cxs = Some (None, cx', ts) \<and>
            dpos cx' = pos + 8 + of_nat (length key) \<and> dlen cx' = rdlen))"
    if h: "loop ctxs = 0" "fst (readNums_mmap c ((checksum key AND 0xFF) * 8)) = Inr (hp, hs)"
      "hs \<noteq> 0" "unat hp + 8 * unat hs < 2 ^ 32" "n < unat hs"
      "\<forall>j<n. slot_other c key (checksum key)
              (hp + 8 * of_nat ((unat (checksum key) div 256 + j) mod unat hs))"
      "slot_match c key (checksum key)
         (hp + 8 * of_nat ((unat (checksum key) div 256 + n) mod unat hs)) pos rdlen"
  proof -
    from find_mmap_walk [OF h] obtain ctx' tr' where
      fm: "find_mmap c key ctxs = (None, ctx', tr')"
      and d: "dpos ctx' = pos + 8 + of_nat (length key)" "dlen ctx' = rdlen"
      by blast
    have c: "\<lparr>mmappedData = mmappedData c\<rparr> = c" by simp
    have "\<exists>cx' ts. find_rd \<lparr>r = osFile (mmappedData c)\<rparr> key cxs = Some (None, cx', ts) \<and>
            dpos cx' = pos + 8 + of_nat (length key) \<and> dlen cx' = rdlen"
      if a: "Context.truncate cxs = ctxs" "8 \<le> length (buf cxs)" "length key < 2 ^ 32"
    proof -
      from a have ag: "agree ctxs cxs" by (simp add: agree_def)
      from fm have fm': "find_mmap \<lparr>mmappedData = mmappedData c\<rparr> key ctxs = (None, ctx', tr')"
        by (simp only: c)
      from sim_find [OF fm' _ ag a(3)] obtain cx' ts where
        "find_rd \<lparr>r = osFile (mmappedData c)\<rparr> key cxs = Some (None, cx', ts)" "agree ctx' cx'"
        by auto
      with agree_fields [of ctx' cx'] d show ?thesis by auto
    qed
    with fm d show ?thesis by blast
  qed
  from p1 p2 p3 p4 show ?thesis by blast
qed

section \<open>Two example files\<close>

text \<open>
  Two files of 2084 bytes. Header entry 5, the bucket of the empty key (hash 5381), gives a
  table of two slots at 2068. The start index of the empty key is \<open>21 mod 2 = 1\<close>, the last
  slot, which holds another record (hash 261); slot 0 holds the hash 5381. In \<open>wrap_db\<close> its
  record position is 2048, a record with an empty key and the data \<open>AA BB\<close>; in
  \<open>corrupt_db\<close> its record position is 4096, past the end of the file.
\<close>

definition cdb_header :: "byte list" where
  "cdb_header = replicate 40 0 @ [0x14, 0x08, 0, 0, 2, 0, 0, 0] @ replicate 2000 0"

definition cdb_records :: "byte list" where
  "cdb_records = [0, 0, 0, 0, 2, 0, 0, 0, 0xAA, 0xBB] @ [1, 0, 0, 0, 1, 0, 0, 0, 0x78, 0x79]"

definition wrap_db :: "byte list" where
  "wrap_db = cdb_header @ cdb_records @
             [0x05, 0x15, 0, 0, 0, 0x08, 0, 0] @ [0x05, 0x01, 0, 0, 0x0A, 0x08, 0, 0]"

definition corrupt_db :: "byte list" where
  "corrupt_db = cdb_header @ cdb_records @
             [0x05, 0x15, 0, 0, 0, 0x10, 0, 0] @ [0x05, 0x01, 0, 0, 0x0A, 0x08, 0, 0]"

lemma db_lengths: "length wrap_db = 2084" "length corrupt_db = 2084"
  by (simp_all add: wrap_db_def corrupt_db_def cdb_header_def cdb_records_def)

lemma wrap_db_reads:
  "take 8 (drop 40 wrap_db) = [0x14, 0x08, 0, 0, 2, 0, 0, 0]"
  "take 8 (drop 2076 wrap_db) = [0x05, 0x01, 0, 0, 0x0A, 0x08, 0, 0]"
  "take 8 (drop 2068 wrap_db) = [0x05, 0x15, 0, 0, 0, 0x08, 0, 0]"
  "take 8 (drop 2048 wrap_db) = [0, 0, 0, 0, 2, 0, 0, 0]"
  by (simp_all add: wrap_db_def cdb_header_def cdb_records_def)

lemma corrupt_db_reads:
  "take 8 (drop 40 corrupt_db) = [0x14, 0x08, 0, 0, 2, 0, 0, 0]"
  "take 8 (drop 2076 corrupt_db) = [0x05, 0x01, 0, 0, 0x0A, 0x08, 0, 0]"
  "take 8 (drop 2068 corrupt_db) = [0x05, 0x15, 0, 0, 0, 0x10, 0, 0]"
  "take 8 (drop 1568 corrupt_db) = replicate 8 0"
  by (simp_all add: corrupt_db_def cdb_header_def cdb_records_def)

section \<open>A record position past the end of the file\<close>

lemma unat_plus8: "unat (p :: u32) + 8 < 2 ^ 32 \<Longrightarrow> unat (p + 8) = unat p + 8"
  using unat_add_of_nat [of p 8] by simp

lemma readNums_mmap_at:
  assumes "unat pos + 8 \<le> length data" and "unat pos + 8 < 2 ^ 32"
  shows "readNums_mmap \<lparr>mmappedData = data\<rparr> pos =
           (Inr (Uint32 (take 8 (drop (unat pos) data)),
                 Uint32 (drop 4 (take 8 (drop (unat pos) data)))), [(unat pos, 8)])"
  using assms unat_plus8 [OF assms(2)]
  by (simp add: readNums_mmap_def slice_def)

lemma readNums_mmap_past:
  assumes "length data \<le> unat pos"
  shows "readNums_mmap \<lparr>mmappedData = data\<rparr> pos = (Inl RuntimeError, [(unat pos, 8)])"
proof (cases rule: readNums_mmap_cases [of "\<lparr>mmappedData = data\<rparr>" pos])
  case (1 e)
  with readNums_mmap_Inl [OF 1] show ?thesis by simp
next
  case (2 a b)
  from readNums_mmap_Inr [OF 2] assms show ?thesis by simp
qed

lemma readNums_rd_past:
  assumes "8 \<le> length (buf cx)" and "length data \<le> unat pos"
  shows "readNums_rd \<lparr>r = osFile data\<rparr> pos cx = (Inl EOF, cx, [(unat pos, 8)])"
  using assms by (simp add: readNums_rd_def ReadAt_def osFile_def Let_def)

lemma record_read_fails_rd:
  assumes "loop cx < hslots cx"
    and "readNums_rd d (kpos cx) cx = (Inr (khash cx, pos), cx1, t1)" and "pos \<noteq> 0"
    and "readNums_rd d pos (advance cx1) = (Inl e, cx2, t2)"
  shows "find_loop_rd d key cx tr = Some (Some e, cx2, tr @ t1 @ t2)"
proof -
  from readNums_rd_fields [OF assms(2)] truncate_eqD [of cx1 cx]
  have "khash cx1 = khash cx" by simp
  with assms show ?thesis by (simp add: find_loop_rd_unfold [of d key cx] probe_rd_def)
qed

lemma record_read_fails_mmap:
  assumes "loop ctx < hslots ctx"
    and "readNums_mmap c (kpos ctx) = (Inr (khash ctx, pos), t1)" and "pos \<noteq> 0"
    and "readNums_mmap c pos = (Inl e, t2)"
  shows "find_loop_mmap c key ctx tr = (Some e, advance ctx, tr @ t1 @ t2)"
  using assms by (simp add: find_loop_mmap_unfold [of c key ctx] probe_mmap_def)

lemma record_past_end_rd:
  assumes lt: "loop cx < hslots cx"
    and sl: "readNums_rd \<lparr>r = osFile data\<rparr> (kpos cx) cx = (Inr (khash cx, pos), cx1, t1)"
    and nz: "pos \<noteq> 0" and past: "length data \<le> unat pos"
  shows "find_loop_rd \<lparr>r = osFile data\<rparr> key cx tr =
           Some (Some EOF, advance cx1, tr @ [(unat (kpos cx), 8), (unat pos, 8)])"
proof -
  from readNums_rd_Inr_buf [OF sl] have "8 \<le> length (buf (advance cx1))" by simp
  from readNums_rd_past [OF this past]
  have r2: "readNums_rd \<lparr>r = osFile data\<rparr> pos (advance cx1) =
              (Inl EOF, advance cx1, [(unat pos, 8)])" .
  from record_read_fails_rd [OF lt sl nz r2, of key tr] readNums_rd_Inr_trace [OF sl]
  show ?thesis by simp
qed

lemma record_past_end_mmap:
  assumes lt: "loop ctx < hslots ctx"
    and sl: "fst (readNums_mmap \<lparr>mmappedData = data\<rparr> (kpos ctx)) = Inr (khash ctx, pos)"
    and nz: "pos \<noteq> 0" and past: "length data \<le> unat pos"
  shows "find_loop_mmap \<lparr>mmappedData = data\<rparr> key ctx tr =
           (Some RuntimeError, advance ctx, tr @ [(unat (kpos ctx), 8), (unat pos, 8)])"
  using record_read_fails_mmap [OF lt readNums_mmap_fst [OF sl] nz readNums_mmap_past [OF past],
      of key tr]
  by simp

text \<open>
  C1. What the code does when a slot holds the hash of the key and a record position at or
  past the end of the file. In the positioned-read build over a file, the record read fails
  with \<open>io.EOF\<close>, \<open>find\<close> recovers it and returns it: the step ends with the error \<open>io.EOF\<close>
  after the slot read and the record read, and \<open>FindNext\<close> returns \<open>(nil, io.EOF)\<close>. That is
  the very value \<open>FindNext\<close> returns when the slots are exhausted, so the two outcomes are
  not distinguishable. In the memory-mapped build the same step ends with a runtime error
  (slice bounds out of range).
\<close>

theorem record_past_end_reads_as_EOF:
  "(loop cx < hslots cx \<and>
    readNums_rd \<lparr>r = osFile data\<rparr> (kpos cx) cx = (Inr (khash cx, pos), cxa, ta) \<and>
    pos \<noteq> 0 \<and> length data \<le> unat pos \<longrightarrow>
      find_loop_rd \<lparr>r = osFile data\<rparr> key cx tr =
        Some (Some EOF, advance cxa, tr @ [(unat (kpos cx), 8), (unat pos, 8)]) \<and>
      (loop cx \<noteq> 0 \<longrightarrow>
         map_option fst (FindNext_rd \<lparr>r = osFile data\<rparr> key cx) =
           Some (Returned None (Some EOF)))) \<and>
   (loop cxe \<noteq> 0 \<and> \<not> loop cxe < hslots cxe \<longrightarrow>
      map_option fst (FindNext_rd d key cxe) = Some (Returned None (Some EOF))) \<and>
   (loop ctx < hslots ctx \<and>
    fst (readNums_mmap \<lparr>mmappedData = data\<rparr> (kpos ctx)) = Inr (khash ctx, posm) \<and>
    posm \<noteq> 0 \<and> length data \<le> unat posm \<longrightarrow>
      find_loop_mmap \<lparr>mmappedData = data\<rparr> key ctx tr =
        (Some RuntimeError, advance ctx, tr @ [(unat (kpos ctx), 8), (unat posm, 8)]))"
proof -
  have a: "find_loop_rd \<lparr>r = osFile data\<rparr> key cx tr =
        Some (Some EOF, advance cxa, tr @ [(unat (kpos cx), 8), (unat pos, 8)]) \<and>
      (loop cx \<noteq> 0 \<longrightarrow>
         map_option fst (FindNext_rd \<lparr>r = osFile data\<rparr> key cx) =
           Some (Returned None (Some EOF)))"
    if h: "loop cx < hslots cx"
      "readNums_rd \<lparr>r = osFile data\<rparr> (kpos cx) cx = (Inr (khash cx, pos), cxa, ta)"
      "pos \<noteq> 0" "length data \<le> unat pos"
    using record_past_end_rd [OF h, of key tr] record_past_end_rd [OF h, of key "[]"]
    by (simp add: FindNext_rd_def find_rd_def)
  have b: "map_option fst (FindNext_rd d key cxe) = Some (Returned None (Some EOF))"
    if "loop cxe \<noteq> 0" "\<not> loop cxe < hslots cxe"
    using that by (simp add: FindNext_rd_def find_rd_def find_loop_rd_unfold [of d key cxe])
  have c: "find_loop_mmap \<lparr>mmappedData = data\<rparr> key ctx tr =
        (Some RuntimeError, advance ctx, tr @ [(unat (kpos ctx), 8), (unat posm, 8)])"
    if h: "loop ctx < hslots ctx"
      "fst (readNums_mmap \<lparr>mmappedData = data\<rparr> (kpos ctx)) = Inr (khash ctx, posm)"
      "posm \<noteq> 0" "length data \<le> unat posm"
    using record_past_end_mmap [OF h] .
  from a b c show ?thesis by blast
qed

lemma find_rd_first:
  assumes "loop cx = 0"
    and "readNums_rd d ((checksum key AND 0xFF) * 8) cx = (Inr (hp, hs), cxh, th)"
    and "hs \<noteq> 0"
  shows "find_rd d key cx =
           find_loop_rd d key
             (cxh\<lparr>hpos := hp, hslots := hs, khash := checksum key,
                  kpos := hp + 8 * of_nat ((unat (checksum key) div 256) mod unat hs)\<rparr>) th"
  using assms by (simp add: find_rd_def Let_def hdr_word start_kpos)

lemma find_mmap_first:
  assumes "loop ctx = 0"
    and "readNums_mmap c ((checksum key AND 0xFF) * 8) = (Inr (hp, hs), th)"
    and "hs \<noteq> 0"
  shows "find_mmap c key ctx =
           find_loop_mmap c key
             (ctx\<lparr>hpos := hp, hslots := hs, khash := checksum key,
                  kpos := hp + 8 * of_nat ((unat (checksum key) div 256) mod unat hs)\<rparr>) th"
  using assms by (simp add: find_mmap_def Let_def hdr_word start_kpos)

lemma find_loop_rd_skip:
  assumes "loop cx < hslots cx"
    and "readNums_rd d (kpos cx) cx = (Inr (h, pos), cxa, ta)" and "pos \<noteq> 0"
    and "h \<noteq> khash cx"
  shows "find_loop_rd d key cx tr = find_loop_rd d key (advance cxa) (tr @ ta)"
proof -
  from readNums_rd_fields [OF assms(2)] truncate_eqD [of cxa cx]
  have "khash cxa = khash cx" by simp
  with assms show ?thesis by (simp add: find_loop_rd_unfold [of d key cx] probe_rd_def)
qed

lemma find_loop_mmap_skip:
  assumes "loop ctx < hslots ctx"
    and "readNums_mmap c (kpos ctx) = (Inr (h, pos), ta)" and "pos \<noteq> 0"
    and "h \<noteq> khash ctx"
  shows "find_loop_mmap c key ctx tr = find_loop_mmap c key (advance ctx) (tr @ ta)"
  using assms by (simp add: find_loop_mmap_unfold [of c key ctx] probe_mmap_def)

text \<open>The lookup of the empty key in the corrupted database, step by step.\<close>

definition corrupt_mid :: Context where
  "corrupt_mid = \<lparr>loop = 1, khash = 5381, kpos = 2068, hpos = 2068, hslots = 2,
                   dpos = 0, dlen = 0\<rparr>"

definition corrupt_mid_rd :: Context_rd where
  "corrupt_mid_rd = \<lparr>loop = 1, khash = 5381, kpos = 2068, hpos = 2068, hslots = 2,
                      dpos = 0, dlen = 0,
                      buf = [0x05, 0x01, 0, 0, 0x0A, 0x08, 0, 0] @ replicate 56 0\<rparr>"

lemma checksum_empty: "checksum [] = 5381" "(checksum [] AND 0xFF) * 8 = 40"
  "unat (checksum []) div 256 = 21"
  by (simp_all add: checksum_def)

lemma corrupt_find_mmap:
  "find_mmap \<lparr>mmappedData = corrupt_db\<rparr> [] NewContext_mmap =
     find_loop_mmap \<lparr>mmappedData = corrupt_db\<rparr> [] corrupt_mid [(40, 8), (2076, 8)]"
proof -
  let ?c = "\<lparr>mmappedData = corrupt_db\<rparr>"
  let ?s = "NewContext_mmap\<lparr>hpos := 2068, hslots := 2, khash := 5381, kpos := 2076\<rparr>"
  have h: "readNums_mmap ?c ((checksum [] AND 0xFF) * 8) = (Inr (2068, 2), [(40, 8)])"
    using readNums_mmap_at [of 40 corrupt_db]
    by (simp add: corrupt_db_reads checksum_empty db_lengths Uint32_def)
  have l0: "loop NewContext_mmap = 0" by (simp add: NewContext_mmap_def)
  have s1: "find_mmap ?c [] NewContext_mmap = find_loop_mmap ?c [] ?s [(40, 8)]"
    using find_mmap_first [OF l0 h] by (simp add: checksum_empty)
  have r: "readNums_mmap ?c (kpos ?s) = (Inr (261, 2058), [(2076, 8)])"
    using readNums_mmap_at [of 2076 corrupt_db]
    by (simp add: corrupt_db_reads db_lengths Uint32_def)
  have "find_loop_mmap ?c [] ?s [(40, 8)] = find_loop_mmap ?c [] (advance ?s) ([(40, 8)] @ [(2076, 8)])"
    by (rule find_loop_mmap_skip [OF _ r]) (simp_all add: NewContext_mmap_def)
  moreover have "advance ?s = corrupt_mid"
    by (simp add: advance_def Let_def NewContext_mmap_def corrupt_mid_def)
  ultimately show ?thesis using s1 by simp
qed

lemma corrupt_find_rd:
  "find_rd \<lparr>r = osFile corrupt_db\<rparr> [] NewContext_rd =
     find_loop_rd \<lparr>r = osFile corrupt_db\<rparr> [] corrupt_mid_rd [(40, 8), (2076, 8)]"
proof -
  let ?d = "\<lparr>r = osFile corrupt_db\<rparr>"
  let ?h = "NewContext_rd\<lparr>buf := [0x14, 0x08, 0, 0, 2, 0, 0, 0] @ drop 8 (buf NewContext_rd)\<rparr>"
  let ?s = "?h\<lparr>hpos := 2068, hslots := 2, khash := 5381, kpos := 2076\<rparr>"
  let ?a = "?s\<lparr>buf := [0x05, 0x01, 0, 0, 0x0A, 0x08, 0, 0] @ drop 8 (buf ?s)\<rparr>"
  have h: "readNums_rd ?d ((checksum [] AND 0xFF) * 8) NewContext_rd = (Inr (2068, 2), ?h, [(40, 8)])"
    using readNums_rd_osFile [of NewContext_rd 40 corrupt_db]
    by (simp add: corrupt_db_reads checksum_empty db_lengths Uint32_def NewContext_rd_def)
  have l0: "loop NewContext_rd = 0" by (simp add: NewContext_rd_def)
  have s1: "find_rd ?d [] NewContext_rd = find_loop_rd ?d [] ?s [(40, 8)]"
    using find_rd_first [OF l0 h] by (simp add: checksum_empty)
  have r: "readNums_rd ?d (kpos ?s) ?s = (Inr (261, 2058), ?a, [(2076, 8)])"
    using readNums_rd_osFile [of ?s 2076 corrupt_db]
    by (simp add: corrupt_db_reads db_lengths Uint32_def NewContext_rd_def)
  have "find_loop_rd ?d [] ?s [(40, 8)] = find_loop_rd ?d [] (advance ?a) ([(40, 8)] @ [(2076, 8)])"
    by (rule find_loop_rd_skip [OF _ r]) (simp_all add: NewContext_rd_def)
  moreover have "advance ?a = corrupt_mid_rd"
    by (simp add: advance_def Let_def NewContext_rd_def corrupt_mid_rd_def)
  ultimately show ?thesis using s1 by simp
qed

lemma corrupt_slot_mmap:
  "fst (readNums_mmap \<lparr>mmappedData = corrupt_db\<rparr> (kpos corrupt_mid)) = Inr (khash corrupt_mid, 4096)"
  using readNums_mmap_at [of 2068 corrupt_db]
  by (simp add: corrupt_db_reads db_lengths Uint32_def corrupt_mid_def)

lemma corrupt_slot_rd:
  "readNums_rd \<lparr>r = osFile corrupt_db\<rparr> (kpos corrupt_mid_rd) corrupt_mid_rd =
     (Inr (khash corrupt_mid_rd, 4096),
      corrupt_mid_rd\<lparr>buf := [0x05, 0x15, 0, 0, 0, 0x10, 0, 0] @ replicate 56 0\<rparr>, [(2068, 8)])"
  using readNums_rd_osFile [of corrupt_mid_rd 2068 corrupt_db]
  by (simp add: corrupt_db_reads db_lengths Uint32_def corrupt_mid_rd_def)

lemma absent_key_rd:
  "map_option fst (Find_rd \<lparr>r = osFile corrupt_db\<rparr> [0x61] NewContext_rd) =
     Some (Returned None (Some EOF))"
proof -
  have c: "(checksum [0x61] AND 0xFF) * 8 = 1568" by (simp add: checksum_def)
  have "readNums_rd \<lparr>r = osFile corrupt_db\<rparr> ((checksum [0x61] AND 0xFF) * 8) NewContext_rd =
      (Inr (0, 0), NewContext_rd\<lparr>buf := replicate 8 0 @ drop 8 (buf NewContext_rd)\<rparr>, [(1568, 8)])"
    using readNums_rd_osFile [of NewContext_rd 1568 corrupt_db]
    by (simp add: corrupt_db_reads c db_lengths Uint32_def NewContext_rd_def)
  then show ?thesis
    by (simp add: Find_rd_def FindNext_rd_def FindStart_def find_rd_def Let_def hdr_word
          NewContext_rd_def)
qed

theorem record_past_end_reads_as_EOF_witness:
  "loop corrupt_mid_rd < hslots corrupt_mid_rd \<and> loop corrupt_mid < hslots corrupt_mid \<and>
   fst (readNums_mmap \<lparr>mmappedData = corrupt_db\<rparr> (kpos corrupt_mid)) =
     Inr (khash corrupt_mid, 4096) \<and>
   length corrupt_db \<le> unat (4096 :: u32) \<and>
   map_option fst (Find_rd \<lparr>r = osFile corrupt_db\<rparr> [] NewContext_rd) =
     Some (Returned None (Some EOF)) \<and>
   map_option fst (Find_rd \<lparr>r = osFile corrupt_db\<rparr> [0x61] NewContext_rd) =
     Some (Returned None (Some EOF)) \<and>
   fst (Find_mmap \<lparr>mmappedData = corrupt_db\<rparr> [] NewContext_mmap) =
     Returned None (Some RuntimeError)"
proof -
  let ?c = "\<lparr>mmappedData = corrupt_db\<rparr>" and ?d = "\<lparr>r = osFile corrupt_db\<rparr>"
  let ?cxa = "corrupt_mid_rd\<lparr>buf := [0x05, 0x15, 0, 0, 0, 0x10, 0, 0] @ replicate 56 0\<rparr>"
  have h: "loop corrupt_mid_rd < hslots corrupt_mid_rd" "loop corrupt_mid < hslots corrupt_mid"
    "(4096 :: u32) \<noteq> 0" "length corrupt_db \<le> unat (4096 :: u32)"
    by (simp_all add: corrupt_mid_rd_def corrupt_mid_def db_lengths)
  have k: "unat (kpos corrupt_mid_rd) = 2068" "unat (kpos corrupt_mid) = 2068"
    by (simp_all add: corrupt_mid_rd_def corrupt_mid_def)
  from record_past_end_reads_as_EOF [where cx = corrupt_mid_rd and data = corrupt_db
      and pos = 4096 and cxa = ?cxa and ta = "[(2068, 8)]" and key = "[]"
      and tr = "[(40, 8), (2076, 8)]" and ctx = corrupt_mid and posm = 4096
      and cxe = ?cxa and d = ?d]
    h corrupt_slot_rd corrupt_slot_mmap
  have r: "find_loop_rd ?d [] corrupt_mid_rd [(40, 8), (2076, 8)] =
        Some (Some EOF, advance ?cxa,
              [(40, 8), (2076, 8)] @ [(unat (kpos corrupt_mid_rd), 8), (unat (4096 :: u32), 8)])"
    and m: "find_loop_mmap ?c [] corrupt_mid [(40, 8), (2076, 8)] =
        (Some RuntimeError, advance corrupt_mid,
         [(40, 8), (2076, 8)] @ [(unat (kpos corrupt_mid), 8), (unat (4096 :: u32), 8)])"
    by blast+
  have z: "FindStart NewContext_rd = NewContext_rd" "FindStart NewContext_mmap = NewContext_mmap"
    by (simp_all add: FindStart_def NewContext_rd_def NewContext_mmap_def)
  from r corrupt_find_rd have
    f1: "map_option fst (Find_rd ?d [] NewContext_rd) = Some (Returned None (Some EOF))"
    by (simp add: Find_rd_def FindNext_rd_def z)
  from m corrupt_find_mmap have
    f2: "fst (Find_mmap ?c [] NewContext_mmap) = Returned None (Some RuntimeError)"
    by (simp add: Find_mmap_def FindNext_mmap_def z)
  from h corrupt_slot_mmap f1 f2 absent_key_rd show ?thesis by blast
qed

section \<open>The example files in both builds\<close>

text \<open>The lookup of the empty key in the intact database.\<close>

lemma wrap_header:
  "fst (readNums_mmap \<lparr>mmappedData = wrap_db\<rparr> ((checksum [] AND 0xFF) * 8)) = Inr (2068, 2)"
  using readNums_mmap_at [of 40 wrap_db]
  by (simp add: wrap_db_reads checksum_empty db_lengths Uint32_def)

lemma wrap_other: "slot_other \<lparr>mmappedData = wrap_db\<rparr> [] 5381 2076"
  using readNums_mmap_at [of 2076 wrap_db]
  by (simp add: slot_other_def wrap_db_reads db_lengths Uint32_def)

lemma wrap_match: "slot_match \<lparr>mmappedData = wrap_db\<rparr> [] 5381 2068 2048 2"
  using readNums_mmap_at [of 2068 wrap_db] readNums_mmap_at [of 2048 wrap_db]
  by (simp add: slot_match_def wrap_db_reads db_lengths Uint32_def match_mmap_def slice_def)

definition wrap_start :: Context where
  "wrap_start = \<lparr>loop = 0, khash = 5381, kpos = 2076, hpos = 2068, hslots = 2,
                  dpos = 0, dlen = 0\<rparr>"

theorem probe_wraps_around_witness:
  "table_in_range wrap_start \<and> kpos wrap_start = slot_pos wrap_start 1 \<and>
   Suc 1 = unat (hslots wrap_start) \<and>
   kpos wrap_start + 8 = hpos wrap_start + push_bit 3 (hslots wrap_start) \<and>
   kpos (advance wrap_start) = hpos wrap_start \<and>
   (unat (checksum []) div 256) mod 2 = 1 \<and>
   slot_other \<lparr>mmappedData = wrap_db\<rparr> [] (checksum []) (2068 + 8 * 1) \<and>
   slot_match \<lparr>mmappedData = wrap_db\<rparr> [] (checksum []) (2068 + 8 * 0) 2048 2 \<and>
   (\<exists>ctx' tr'. find_loop_mmap \<lparr>mmappedData = wrap_db\<rparr> [] wrap_start [] = (None, ctx', tr') \<and>
      dpos ctx' = 2056 \<and> dlen ctx' = 2 \<and> unat (loop ctx') = 2 \<and> kpos ctx' = 2076) \<and>
   (\<exists>ctx' tr'. find_mmap \<lparr>mmappedData = wrap_db\<rparr> [] NewContext_mmap = (None, ctx', tr') \<and>
      dpos ctx' = 2056 \<and> dlen ctx' = 2) \<and>
   (\<exists>cx' ts. find_rd \<lparr>r = osFile wrap_db\<rparr> [] NewContext_rd = Some (None, cx', ts) \<and>
      dpos cx' = 2056 \<and> dlen cx' = 2)"
proof -
  let ?c = "\<lparr>mmappedData = wrap_db\<rparr>"
  have a: "table_in_range wrap_start" "1 < unat (hslots wrap_start)"
    "kpos wrap_start = slot_pos wrap_start 1" "unat (loop wrap_start) + 1 < unat (hslots wrap_start)"
    "Suc 1 = unat (hslots wrap_start)" "unat (hslots wrap_start) = 2" "khash wrap_start = 5381"
    "hpos wrap_start = 2068"
    by (simp_all add: table_in_range_def wrap_start_def slot_pos_def)
  have sp: "slot_pos wrap_start 0 = 2068" "slot_pos wrap_start 1 = 2076"
    "slot_pos wrap_start (Suc 0) = 2076"
    by (simp_all add: wrap_start_def slot_pos_def)
  have l0: "unat (loop wrap_start) = 0" by (simp add: wrap_start_def)
  have b: "\<forall>j<1. slot_other ?c [] (khash wrap_start)
             (slot_pos wrap_start ((1 + j) mod unat (hslots wrap_start)))"
    using wrap_other by (simp add: a sp)
  have c: "slot_match ?c [] (khash wrap_start)
             (slot_pos wrap_start ((1 + 1) mod unat (hslots wrap_start))) 2048 2"
    using wrap_match by (simp add: a sp)
  have d: "loop NewContext_mmap = 0" "(2 :: u32) \<noteq> 0" "unat (2068 :: u32) + 8 * unat (2 :: u32) < 2 ^ 32"
    "1 < unat (2 :: u32)" "Context.truncate NewContext_rd = NewContext_mmap"
    "8 \<le> length (buf NewContext_rd)" "length ([] :: byte list) < 2 ^ 32"
    by (simp_all add: NewContext_mmap_def NewContext_rd_def Context.truncate_def)
  have e: "\<forall>j<1. slot_other ?c [] (checksum [])
              (2068 + 8 * of_nat ((unat (checksum []) div 256 + j) mod unat (2 :: u32)))"
    using wrap_other by (simp add: checksum_empty)
  have f: "slot_match ?c [] (checksum [])
             (2068 + 8 * of_nat ((unat (checksum []) div 256 + 1) mod unat (2 :: u32))) 2048 2"
    using wrap_match by (simp add: checksum_empty)
  note w = probe_wraps_around [where ctx = wrap_start and i = 1 and k = 1 and c = ?c
      and key = "[]" and pos = 2048 and rdlen = 2 and tr = "[]" and ctxs = NewContext_mmap
      and hp = 2068 and hs = 2 and n = 1 and cxs = NewContext_rd]
  from w a(1,2,3) have w1: "kpos (advance wrap_start) = slot_pos wrap_start (Suc 1 mod unat (hslots wrap_start))"
    and w2: "kpos wrap_start + 8 = hpos wrap_start + push_bit 3 (hslots wrap_start)
               \<longleftrightarrow> Suc 1 = unat (hslots wrap_start)"
    by blast+
  from w a b c have w3: "\<exists>ctx' tr'. find_loop_mmap ?c [] wrap_start [] = (None, ctx', tr') \<and>
         dpos ctx' = 2048 + 8 + of_nat (length ([] :: byte list)) \<and> dlen ctx' = 2 \<and>
         unat (loop ctx') = unat (loop wrap_start) + 1 + 1 \<and>
         kpos ctx' = slot_pos wrap_start (Suc (1 + 1) mod unat (hslots wrap_start))"
    by blast
  from w wrap_header d e f have w4: "\<exists>ctx' tr'. find_mmap ?c [] NewContext_mmap = (None, ctx', tr') \<and>
         dpos ctx' = 2048 + 8 + of_nat (length ([] :: byte list)) \<and> dlen ctx' = 2"
    and w5: "\<exists>cx' ts. find_rd \<lparr>r = osFile (mmappedData ?c)\<rparr> [] NewContext_rd = Some (None, cx', ts) \<and>
            dpos cx' = 2048 + 8 + of_nat (length ([] :: byte list)) \<and> dlen cx' = 2"
    by blast+
  have g: "(unat (checksum []) div 256) mod 2 = 1" by (simp add: checksum_empty)
  have o: "slot_other ?c [] (checksum []) (2068 + 8 * 1)"
    "slot_match ?c [] (checksum []) (2068 + 8 * 0) 2048 2"
    using wrap_other wrap_match by (simp_all add: checksum_empty)
  from w1 w2 a have x1: "kpos (advance wrap_start) = hpos wrap_start"
    "kpos wrap_start + 8 = hpos wrap_start + push_bit 3 (hslots wrap_start)"
    by (simp_all add: sp)
  from w3 obtain ctx' tr' where q: "find_loop_mmap ?c [] wrap_start [] = (None, ctx', tr')"
      "dpos ctx' = 2048 + 8 + of_nat (length ([] :: byte list))" "dlen ctx' = 2"
      "unat (loop ctx') = unat (loop wrap_start) + 1 + 1"
      "kpos ctx' = slot_pos wrap_start (Suc (1 + 1) mod unat (hslots wrap_start))"
    by blast
  have md: "Suc (1 + 1) mod unat (hslots wrap_start) = 1" by (simp add: a(6))
  have q': "dpos ctx' = 2056" "unat (loop ctx') = 2" "kpos ctx' = 2076"
    using q(2) apply simp
    using q(4) l0 apply simp
    using q(5) md sp(2) apply simp
    done
  with q(1,3) have x3: "\<exists>ctx' tr'. find_loop_mmap ?c [] wrap_start [] = (None, ctx', tr') \<and>
      dpos ctx' = 2056 \<and> dlen ctx' = 2 \<and> unat (loop ctx') = 2 \<and> kpos ctx' = 2076"
    by blast
  from w4 have x4: "\<exists>ctx' tr'. find_mmap ?c [] NewContext_mmap = (None, ctx', tr') \<and>
      dpos ctx' = 2056 \<and> dlen ctx' = 2" by simp
  from w5 have x5: "\<exists>cx' ts. find_rd \<lparr>r = osFile wrap_db\<rparr> [] NewContext_rd = Some (None, cx', ts) \<and>
      dpos cx' = 2056 \<and> dlen cx' = 2" by simp
  from a(1,3,5) x1 g o x3 x4 x5 show ?thesis by blast
qed

theorem builds_agree_within_file_witness:
  "Context.truncate NewContext_rd = NewContext_mmap \<and> 8 \<le> length (buf NewContext_rd) \<and>
   length ([] :: byte list) < 2 ^ 32 \<and>
   fst (find_mmap \<lparr>mmappedData = wrap_db\<rparr> [] NewContext_mmap) = None \<and>
   (\<exists>cx' ts. find_rd \<lparr>r = osFile wrap_db\<rparr> [] NewContext_rd = Some (None, cx', ts) \<and>
      Context.truncate cx' = fst (snd (find_mmap \<lparr>mmappedData = wrap_db\<rparr> [] NewContext_mmap)) \<and>
      dpos cx' = 2056 \<and> dlen cx' = 2) \<and>
   fst (Data_mmap \<lparr>mmappedData = wrap_db\<rparr> [] NewContext_mmap) = Returned (Some [0xAA, 0xBB]) None \<and>
   map_option fst (Data_rd \<lparr>r = osFile wrap_db\<rparr> [] NewContext_rd) =
     Some (Returned (Some [0xAA, 0xBB]) None)"
proof -
  let ?c = "\<lparr>mmappedData = wrap_db\<rparr>" and ?d = "\<lparr>r = osFile wrap_db\<rparr>"
  have d: "loop NewContext_mmap = 0" "(2 :: u32) \<noteq> 0" "unat (2068 :: u32) + 8 * unat (2 :: u32) < 2 ^ 32"
    "1 < unat (2 :: u32)" "Context.truncate NewContext_rd = NewContext_mmap"
    "8 \<le> length (buf NewContext_rd)" "length ([] :: byte list) < 2 ^ 32"
    by (simp_all add: NewContext_mmap_def NewContext_rd_def Context.truncate_def)
  have e: "\<forall>j<1. slot_other ?c [] (checksum [])
              (2068 + 8 * of_nat ((unat (checksum []) div 256 + j) mod unat (2 :: u32)))"
    using wrap_other by (simp add: checksum_empty)
  have f: "slot_match ?c [] (checksum [])
             (2068 + 8 * of_nat ((unat (checksum []) div 256 + 1) mod unat (2 :: u32))) 2048 2"
    using wrap_match by (simp add: checksum_empty)
  from find_mmap_walk [OF d(1) wrap_header d(2,3,4) e f] obtain ctx' tr' where
    fm: "find_mmap ?c [] NewContext_mmap = (None, ctx', tr')"
    and dp: "dpos ctx' = 2056" "dlen ctx' = 2"
    by auto
  have z: "FindStart NewContext_mmap = NewContext_mmap"
    by (simp add: FindStart_def NewContext_mmap_def)
  have bytes: "take 2 (drop 2056 wrap_db) = [0xAA, 0xBB]"
    by (simp add: wrap_db_def cdb_header_def cdb_records_def)
  from fm dp bytes have dm: "fst (Data_mmap ?c [] NewContext_mmap) = Returned (Some [0xAA, 0xBB]) None"
    by (simp add: Data_mmap_def z slice_def db_lengths)
  from builds_agree_within_file [where cx = NewContext_rd and ctx = NewContext_mmap
      and key = "[]" and data = wrap_db and res = None and ctx' = ctx' and tr = tr'
      and v = "Some [0xAA, 0xBB]" and e = None] d fm dm dp
  have "(\<exists>cx' ts. find_rd ?d [] NewContext_rd = Some (None, cx', ts) \<and>
           Context.truncate cx' = ctx' \<and> dpos cx' = 2056 \<and> dlen cx' = 2) \<and>
        map_option fst (Data_rd ?d [] NewContext_rd) = Some (Returned (Some [0xAA, 0xBB]) None)"
    by simp
  with d fm dm show ?thesis by simp
qed

section \<open>A key that runs past the end of the file\<close>

text \<open>
  The memory-mapped \<open>match\<close> slices all the bytes of the key at once; the positioned-read
  \<open>match\<close> reads them in chunks of the scratch buffer and returns false at the first chunk
  that differs, without reading the rest.
\<close>

lemma match_mmap_past:
  assumes "length key < 2 ^ 32" and "length data < unat pos + length key"
  shows "fst (match_mmap \<lparr>mmappedData = data\<rparr> key pos) = Inl RuntimeError"
proof (cases rule: match_mmap_cases [of "\<lparr>mmappedData = data\<rparr>" key pos])
  case (1 e)
  with match_mmap_Inl [OF 1] show ?thesis by simp
next
  case (2 b)
  from match_mmap_Inr [OF 2 assms(1)] assms(2) show ?thesis by simp
qed

lemma key_read_fails_mmap:
  assumes "loop ctx < hslots ctx"
    and "fst (readNums_mmap c (kpos ctx)) = Inr (khash ctx, pos)" and "pos \<noteq> 0"
    and "fst (readNums_mmap c pos) = Inr (of_nat (length key), rdlen)"
    and "fst (match_mmap c key (pos + 8)) = Inl e"
  shows "fst (find_loop_mmap c key ctx tr) = Some e"
  using assms(1,3) readNums_mmap_fst [OF assms(2)] readNums_mmap_fst [OF assms(4)]
    match_mmap_fst [OF assms(5)]
  by (simp add: find_loop_mmap_unfold [of c key ctx] probe_mmap_def)

lemma match_rd_chunk_differs:
  assumes "0 < length (buf cx)" and "length (buf cx) \<le> length key"
    and "unat pos + length (buf cx) \<le> length data"
    and "take (length (buf cx)) (drop (unat pos) data) \<noteq> take (length (buf cx)) key"
  shows "\<exists>cx' t. match_rd \<lparr>r = osFile data\<rparr> key pos cx = Some (Inr False, cx', t) \<and>
           Context.truncate cx' = Context.truncate cx \<and> length (buf cx') = length (buf cx)"
proof -
  let ?bl = "length (buf cx)"
  have rd: "ReadAt (osFile data) (take ?bl (buf cx)) (unat pos) =
              (take ?bl (drop (unat pos) data), None)"
    using ReadAt_osFile_full [of "unat pos" "take ?bl (buf cx)" data] assms(3) by simp
  from assms(1,2) have n: "0 < length key" by (rule less_le_trans)
  have "\<exists>cx' t. match_rd \<lparr>r = osFile data\<rparr> key pos cx = Some (Inr False, cx', t)"
    using assms(2,4) n rd
    by (simp add: match_rd_def match_loop.simps [of _ key 0] Let_def)
  then obtain cx' t where
    m: "match_rd \<lparr>r = osFile data\<rparr> key pos cx = Some (Inr False, cx', t)" by blast
  from match_rd_fields [OF m] m show ?thesis by blast
qed

lemma probe_rd_chunk_differs:
  assumes ag: "agree ctx cx"
    and sl: "fst (readNums_mmap \<lparr>mmappedData = data\<rparr> (kpos ctx)) = Inr (khash ctx, pos)"
    and nz: "pos \<noteq> 0"
    and rc: "fst (readNums_mmap \<lparr>mmappedData = data\<rparr> pos) = Inr (of_nat (length key), rdlen)"
    and le: "length (buf cx) \<le> length key"
    and inr: "unat (pos + 8) + length (buf cx) \<le> length data"
    and df: "take (length (buf cx)) (drop (unat (pos + 8)) data) \<noteq> take (length (buf cx)) key"
  shows "\<exists>cx' t. probe_rd \<lparr>r = osFile data\<rparr> key cx = Some (Inr cx', t) \<and>
           agree (advance ctx) cx'"
proof -
  let ?d = "\<lparr>r = osFile data\<rparr>"
  from ag have b8: "8 \<le> length (buf cx)" and f: "kpos cx = kpos ctx" "khash cx = khash ctx"
    using agree_fields [OF ag] by (simp_all add: agree_def)
  from sim_readNums [OF readNums_mmap_fst [OF sl] b8] obtain b where
    r1: "readNums_rd ?d (kpos cx) cx = (Inr (khash ctx, pos), cx\<lparr>buf := b\<rparr>, [(unat (kpos ctx), 8)])"
    and lb: "length b = length (buf cx)" by (auto simp: f)
  let ?c1 = "advance (cx\<lparr>buf := b\<rparr>)"
  from agree_advance [OF agree_buf [OF ag lb]] have ag1: "agree (advance ctx) ?c1" .
  have l1: "length (buf ?c1) = length (buf cx)" using lb by (simp add: buf_advance)
  with b8 have b81: "8 \<le> length (buf ?c1)" by simp
  from sim_readNums [OF readNums_mmap_fst [OF rc] b81] obtain b2 where
    r2: "readNums_rd ?d pos ?c1 = (Inr (of_nat (length key), rdlen), ?c1\<lparr>buf := b2\<rparr>, [(unat pos, 8)])"
    and lb2: "length b2 = length (buf ?c1)" by auto
  let ?c2 = "?c1\<lparr>buf := b2\<rparr>"
  have l2: "length (buf ?c2) = length (buf cx)" using lb2 l1 by simp
  from agree_buf [OF ag1 lb2] have ag2: "agree (advance ctx) ?c2" .
  from b8 l2 have p2: "0 < length (buf ?c2)" by (cases "buf cx") auto
  from match_rd_chunk_differs [of ?c2 key "pos + 8" data] p2 le inr df l2 obtain cx3 t3 where
    m: "match_rd ?d key (pos + 8) ?c2 = Some (Inr False, cx3, t3)"
    and t3: "Context.truncate cx3 = Context.truncate ?c2" "length (buf cx3) = length (buf ?c2)"
    by auto
  from agree_trans [OF ag2 t3] have ag3: "agree (advance ctx) cx3" .
  have kh: "khash ?c1 = khash ctx" using agree_fields [OF ag1] by (simp add: advance_fields)
  from r1 r2 m nz kh have "probe_rd ?d key cx =
      Some (Inr cx3, [(unat (kpos ctx), 8)] @ [(unat pos, 8)] @ t3)"
    by (simp add: probe_rd_def)
  with ag3 show ?thesis by blast
qed

lemma find_rd_start:
  assumes l0: "loop ctx = 0" and ag: "agree ctx cx"
    and hd: "fst (readNums_mmap \<lparr>mmappedData = data\<rparr> ((checksum key AND 0xFF) * 8)) = Inr (hp, hs)"
    and nz: "hs \<noteq> 0"
  shows "\<exists>cx' t. find_rd \<lparr>r = osFile data\<rparr> key cx = find_loop_rd \<lparr>r = osFile data\<rparr> key cx' t \<and>
           agree (ctx\<lparr>hpos := hp, hslots := hs, khash := checksum key,
                      kpos := hp + 8 * of_nat ((unat (checksum key) div 256) mod unat hs)\<rparr>) cx' \<and>
           length (buf cx') = length (buf cx)"
proof -
  from ag have b8: "8 \<le> length (buf cx)" and lc: "loop cx = 0"
    using agree_fields [OF ag] l0 by (simp_all add: agree_def)
  from sim_readNums [OF readNums_mmap_fst [OF hd] b8] obtain b where
    r: "readNums_rd \<lparr>r = osFile data\<rparr> ((checksum key AND 0xFF) * 8) cx =
          (Inr (hp, hs), cx\<lparr>buf := b\<rparr>, [(unat ((checksum key AND 0xFF) * 8), 8)])"
    and lb: "length b = length (buf cx)" by auto
  let ?cx = "cx\<lparr>buf := b, hpos := hp, hslots := hs, khash := checksum key,
                 kpos := hp + 8 * of_nat ((unat (checksum key) div 256) mod unat hs)\<rparr>"
  have "length (buf ?cx) = length (buf cx)" using lb by simp
  with agree_start [OF agree_buf [OF ag lb]] find_rd_first [OF lc r nz] show ?thesis by blast
qed

lemma chunked_match_goes_on:
  assumes ag: "agree ctx cx" and lt: "loop ctx < hslots ctx"
    and sl: "fst (readNums_mmap \<lparr>mmappedData = data\<rparr> (kpos ctx)) = Inr (khash ctx, pos)"
    and nz: "pos \<noteq> 0"
    and rc: "fst (readNums_mmap \<lparr>mmappedData = data\<rparr> pos) = Inr (of_nat (length key), rdlen)"
    and le: "length (buf cx) \<le> length key"
    and inr: "unat (pos + 8) + length (buf cx) \<le> length data"
    and df: "take (length (buf cx)) (drop (unat (pos + 8)) data) \<noteq> take (length (buf cx)) key"
    and k: "length key < 2 ^ 32"
    and cont: "find_loop_mmap \<lparr>mmappedData = data\<rparr> key (advance ctx) tr0 = (res, ctx', tr')"
    and ne: "res \<noteq> Some RuntimeError"
  shows "\<exists>cx' ts'. find_loop_rd \<lparr>r = osFile data\<rparr> key cx ts = Some (res, cx', ts') \<and>
           agree ctx' cx'"
proof -
  from probe_rd_chunk_differs [OF ag sl nz rc le inr df] obtain cxn t where
    p: "probe_rd \<lparr>r = osFile data\<rparr> key cx = Some (Inr cxn, t)"
    and agn: "agree (advance ctx) cxn" by blast
  from lt agree_fields [OF ag] have "loop cx < hslots cx" by simp
  with p have "find_loop_rd \<lparr>r = osFile data\<rparr> key cx ts =
      find_loop_rd \<lparr>r = osFile data\<rparr> key cxn (ts @ t)"
    by (simp add: find_loop_rd_unfold [of _ key cx])
  with sim_find_loop [OF cont ne agn k, of "ts @ t"] show ?thesis by simp
qed

text \<open>
  A file of 2210 bytes and a key of 65 bytes, one more than the scratch buffer of
  \<open>NewContext\<close>. The bucket of the key has two slots at 2122. The start slot, slot 1, points
  to the record at 2138, the last of the file: its key length is 65 and the file ends after
  64 bytes of its key, which differ from the key looked up. Slot 0 points to the record of
  the key at 2048, whose data is the byte at 2121.
\<close>

definition long_key :: "byte list" where
  "long_key = replicate 65 0x61"

definition truncated_db :: "byte list" where
  "truncated_db =
     replicate 1568 0 @ [0x4A, 0x08, 0, 0, 2, 0, 0, 0] @ replicate 472 0 @
     [65, 0, 0, 0, 1, 0, 0, 0] @ replicate 65 0x61 @ [0xDD] @
     [0xC4, 0x59, 0x95, 0xB1, 0x00, 0x08, 0, 0] @ [0xC4, 0x59, 0x95, 0xB1, 0x5A, 0x08, 0, 0] @
     [65, 0, 0, 0, 1, 0, 0, 0] @ replicate 64 0x62"

definition truncated_start :: Context where
  "truncated_start = \<lparr>loop = 0, khash = 2979355076, kpos = 2130, hpos = 2122, hslots = 2,
                       dpos = 0, dlen = 0\<rparr>"

lemma replicate_numeral: "replicate (numeral k) x = x # replicate (pred_numeral k) x"
  by (simp add: numeral_eq_Suc)

lemma checksum_long_key: "checksum long_key = 2979355076"
  "(checksum long_key AND 0xFF) * 8 = 1568" "unat (checksum long_key) div 256 mod 2 = 1"
proof -
  show c: "checksum long_key = 2979355076"
    by (simp add: long_key_def checksum_def replicate_numeral)
  show "(checksum long_key AND 0xFF) * 8 = 1568" "unat (checksum long_key) div 256 mod 2 = 1"
    by (simp_all add: c)
qed

lemma truncated_db_length: "length truncated_db = 2210" "length long_key = 65"
  by (simp_all add: truncated_db_def long_key_def)

lemma truncated_db_reads:
  "take 8 (drop 1568 truncated_db) = [0x4A, 0x08, 0, 0, 2, 0, 0, 0]"
  "take 8 (drop 2130 truncated_db) = [0xC4, 0x59, 0x95, 0xB1, 0x5A, 0x08, 0, 0]"
  "take 8 (drop 2138 truncated_db) = [65, 0, 0, 0, 1, 0, 0, 0]"
  "take 64 (drop 2146 truncated_db) = replicate 64 0x62"
  "take 8 (drop 2122 truncated_db) = [0xC4, 0x59, 0x95, 0xB1, 0x00, 0x08, 0, 0]"
  "take 8 (drop 2048 truncated_db) = [65, 0, 0, 0, 1, 0, 0, 0]"
  "take 65 (drop 2056 truncated_db) = replicate 65 0x61"
  by (simp_all add: truncated_db_def)

lemma truncated_header:
  "fst (readNums_mmap \<lparr>mmappedData = truncated_db\<rparr> ((checksum long_key AND 0xFF) * 8)) =
     Inr (2122, 2)"
  using readNums_mmap_at [of 1568 truncated_db]
  by (simp add: truncated_db_reads checksum_long_key truncated_db_length Uint32_def)

lemma truncated_slots:
  "fst (readNums_mmap \<lparr>mmappedData = truncated_db\<rparr> 2130) = Inr (2979355076, 2138)"
  "fst (readNums_mmap \<lparr>mmappedData = truncated_db\<rparr> 2138) = Inr (65, 1)"
  "fst (readNums_mmap \<lparr>mmappedData = truncated_db\<rparr> 2122) = Inr (2979355076, 2048)"
  "fst (readNums_mmap \<lparr>mmappedData = truncated_db\<rparr> 2048) = Inr (65, 1)"
  using readNums_mmap_at [of 2130 truncated_db] readNums_mmap_at [of 2138 truncated_db]
    readNums_mmap_at [of 2122 truncated_db] readNums_mmap_at [of 2048 truncated_db]
  by (simp_all add: truncated_db_reads truncated_db_length Uint32_def)

lemma truncated_match:
  "fst (match_mmap \<lparr>mmappedData = truncated_db\<rparr> long_key 2056) = Inr True"
  by (simp add: match_mmap_def slice_def truncated_db_length truncated_db_reads)
     (simp add: long_key_def)

text \<open>
  C9 as stated does not hold: on \<open>truncated_db\<close>, with \<open>long_key\<close> and fresh contexts, the
  memory-mapped \<open>find\<close> ends with a runtime error at the key of the last record, and the
  positioned-read \<open>find\<close> goes on to slot 0 and returns found with \<open>dpos = 2121\<close> and
  \<open>dlen = 1\<close>.
\<close>

theorem builds_differ_on_truncated_key:
  "Context.truncate NewContext_rd = NewContext_mmap \<and>
   fst (find_mmap \<lparr>mmappedData = truncated_db\<rparr> long_key NewContext_mmap) = Some RuntimeError \<and>
   map_option fst (find_rd \<lparr>r = osFile truncated_db\<rparr> long_key NewContext_rd) = Some None \<and>
   map_option (dpos \<circ> fst \<circ> snd) (find_rd \<lparr>r = osFile truncated_db\<rparr> long_key NewContext_rd) =
     Some 2121 \<and>
   map_option (dlen \<circ> fst \<circ> snd) (find_rd \<lparr>r = osFile truncated_db\<rparr> long_key NewContext_rd) =
     Some 1 \<and>
   map_option fst (find_rd \<lparr>r = osFile truncated_db\<rparr> long_key NewContext_rd) \<noteq>
     Some (fst (find_mmap \<lparr>mmappedData = truncated_db\<rparr> long_key NewContext_mmap))"
proof -
  let ?c = "\<lparr>mmappedData = truncated_db\<rparr>" and ?d = "\<lparr>r = osFile truncated_db\<rparr>"
  let ?s = truncated_start
  have t: "Context.truncate NewContext_rd = NewContext_mmap"
    by (simp add: Context.truncate_def NewContext_rd_def NewContext_mmap_def)
  then have ag: "agree NewContext_mmap NewContext_rd"
    by (simp add: agree_def) (simp add: NewContext_rd_def)
  have l0: "loop NewContext_mmap = 0" and bl: "length (buf NewContext_rd) = 64"
    by (simp_all add: NewContext_mmap_def NewContext_rd_def)
  have st: "NewContext_mmap\<lparr>hpos := 2122, hslots := 2, khash := checksum long_key,
              kpos := 2122 + 8 * of_nat ((unat (checksum long_key) div 256) mod unat (2 :: u32))\<rparr> = ?s"
    by (simp add: checksum_long_key NewContext_mmap_def truncated_start_def)
  have s: "loop ?s < hslots ?s" "kpos ?s = 2130" "khash ?s = 2979355076"
    by (simp_all add: truncated_start_def)
  have a: "loop (advance ?s) < hslots (advance ?s)" "kpos (advance ?s) = 2122"
    "khash (advance ?s) = 2979355076"
    by (simp_all add: truncated_start_def advance_def Let_def)
  have k: "length long_key < 2 ^ 32" "of_nat (length long_key) = (65 :: u32)"
    by (simp_all add: truncated_db_length)
  have sl: "fst (readNums_mmap ?c (kpos ?s)) = Inr (khash ?s, 2138)"
    and rc: "fst (readNums_mmap ?c 2138) = Inr (of_nat (length long_key), 1)"
    and sl2: "fst (readNums_mmap ?c (kpos (advance ?s))) = Inr (khash (advance ?s), 2048)"
    and rc2: "fst (readNums_mmap ?c 2048) = Inr (of_nat (length long_key), 1)"
    by (simp_all add: s a k truncated_slots)
  have past: "length truncated_db < unat (2138 + 8 :: u32) + length long_key"
    by (simp add: truncated_db_length)
  have mt: "fst (match_mmap ?c long_key (2048 + 8)) = Inr True"
    using truncated_match by simp
  from find_mmap_first [OF l0 readNums_mmap_fst [OF truncated_header]] st obtain th where
    fm: "find_mmap ?c long_key NewContext_mmap = find_loop_mmap ?c long_key ?s th"
    by simp
  from key_read_fails_mmap [OF s(1) sl _ rc match_mmap_past [OF k(1) past], of th] fm
  have m: "fst (find_mmap ?c long_key NewContext_mmap) = Some RuntimeError" by simp
  from find_rd_start [OF l0 ag truncated_header] st obtain cx t where
    fr: "find_rd ?d long_key NewContext_rd = find_loop_rd ?d long_key cx t"
    and agc: "agree ?s cx" and lb: "length (buf cx) = 64"
    by (auto simp: bl)
  have le: "length (buf cx) \<le> length long_key"
    and inr: "unat (2138 + 8 :: u32) + length (buf cx) \<le> length truncated_db"
    and df: "take (length (buf cx)) (drop (unat (2138 + 8 :: u32)) truncated_db) \<noteq>
               take (length (buf cx)) long_key"
    by (simp_all add: lb truncated_db_length truncated_db_reads) (simp add: long_key_def)
  from match_found_mmap [OF a(1) sl2 _ rc2 mt, of "[]"] obtain trm where
    cont: "find_loop_mmap ?c long_key (advance ?s) [] =
             (None, (advance (advance ?s))\<lparr>dlen := 1, dpos := 2048 + 8 + of_nat (length long_key)\<rparr>, trm)"
    by simp
  from chunked_match_goes_on [OF agc s(1) sl _ rc le inr df k(1) cont, of t] fr
  obtain cx' ts where r: "find_rd ?d long_key NewContext_rd = Some (None, cx', ts)"
    and ag': "agree ((advance (advance ?s))\<lparr>dlen := 1, dpos := 2048 + 8 + of_nat (length long_key)\<rparr>) cx'"
    by auto
  from agree_fields [OF ag'] have d: "dpos cx' = 2121" "dlen cx' = 1"
    by (simp_all add: k)
  from t m r d show ?thesis by simp
qed

end
